theory Spec2Isabelle
  imports Main "HOL-Library.List_Lexorder" "HOL-Library.Char_ord"
begin

section \<open>Data model of \<open>cash_flow_minimizer.cpp\<close>\<close>

text \<open>
  Class \<open>Person\<close>: a name, a balance and a \<open>std::set<string>\<close> of UPIs. The set is a HOL
  set of strings; its iteration order is the order of \<open>std::string\<close> (lexicographic on
  bytes, a proper prefix first), which is the order of \<open>char list\<close> here, so \<open>*begin()\<close>
  of a non-empty set is its \<open>Min\<close>.
\<close>

text \<open>
  The C++ \<open>int\<close> has 32 bits. An \<open>int\<close> of the program is an \<open>int\<close> of HOL between
  \<open>INT_MIN\<close> and \<open>INT_MAX\<close>, and every addition, subtraction and negation of the program is followed
  by \<open>int32\<close>, which reduces the exact result to that range in two's complement: a result
  out of range wraps around, as it does in the compiled program (the C++ standard leaves
  signed overflow undefined).
\<close>

definition INT_MIN :: int where
  "INT_MIN = - 2147483648"

definition INT_MAX :: int where
  "INT_MAX = 2147483647"

definition int32 :: "int \<Rightarrow> int" where
  "int32 x = (x + 2147483648) mod 4294967296 - 2147483648"

definition in_range :: "int \<Rightarrow> bool" where
  "in_range x \<longleftrightarrow> INT_MIN \<le> x \<and> x \<le> INT_MAX"

record person =
  name :: string
  balance :: int
  upis :: "string set"

definition Person :: "string \<Rightarrow> person" where
  "Person nm = \<lparr>name = nm, balance = 0, upis = {}\<rparr>"

definition addUPI :: "string \<Rightarrow> person \<Rightarrow> person" where
  "addUPI u p = p\<lparr>upis := insert u (upis p)\<rparr>"

definition adjustBalance :: "int \<Rightarrow> person \<Rightarrow> person" where
  "adjustBalance amount p = p\<lparr>balance := int32 (balance p + amount)\<rparr>"

text \<open>
  What can end a run other than a normal return: \<open>throw runtime_error(msg)\<close>, or
  undefined behaviour (here: dereferencing \<open>begin()\<close> of an empty set).
\<close>

datatype failure = Runtime_error string | Undefined_behaviour

type_synonym transfer = "int \<times> int \<times> int \<times> string"

text \<open>
  The members of class \<open>CashFlowMinimizer\<close>: \<open>n_\<close>, \<open>people_\<close>, \<open>idx_\<close>, \<open>debtMatrix_\<close>,
  \<open>result_\<close>.
\<close>

record cfm =
  n_count :: int
  people :: "person list"
  idx :: "string \<rightharpoonup> nat"
  debtMatrix :: "int list list"
  result :: "transfer list"

definition CashFlowMinimizer :: cfm where
  "CashFlowMinimizer = \<lparr>n_count = 0, people = [], idx = Map.empty, debtMatrix = [], result = []\<rparr>"

section \<open>Standard input\<close>

text \<open>
  \<open>cin\<close> is the list of the whitespace-separated tokens still to be read (each a
  non-empty run of characters that are no white space), and the fail bit. Nothing in the
  program clears the fail bit, so once set every later extraction fails.

  An \<open>int\<close> extraction reads from the first token an optional sign and the longest run
  of decimal digits that follows; the characters of the token after them stay in the
  stream and are what the next extraction reads first. With no digit there it stores 0,
  with digits whose number is out of the range of \<open>int\<close> the nearest bound, and sets the
  fail bit in both cases; at the end of input it sets the fail bit and leaves the variable
  as it was. A \<open>string\<close> extraction takes one whole token; when it fails the (fresh)
  string stays empty.
\<close>

type_synonym istream = "string list \<times> bool"

definition fail :: "istream \<Rightarrow> bool" where
  "fail c = snd c"

definition is_digit :: "char \<Rightarrow> bool" where
  "is_digit ch \<longleftrightarrow> ch \<in> set ''0123456789''"

definition digit_value :: "char \<Rightarrow> int" where
  "digit_value ch = int (of_char ch) - 48"

definition digits_value :: "string \<Rightarrow> int" where
  "digits_value ds = foldl (\<lambda>acc ch. 10 * acc + digit_value ch) 0 ds"

text \<open>The leading digits of \<open>r\<close> as a number, and the characters after them.\<close>

definition unsigned_int :: "string \<Rightarrow> (int \<times> string) option" where
  "unsigned_int r =
     (if takeWhile is_digit r = [] then None
      else Some (digits_value (takeWhile is_digit r), dropWhile is_digit r))"

definition negated :: "int \<times> string \<Rightarrow> int \<times> string" where
  "negated vr = (- fst vr, snd vr)"

text \<open>The numeral at the start of a token (exact, not yet reduced to 32 bits), and the rest.\<close>

fun parse_int :: "string \<Rightarrow> (int \<times> string) option" where
  "parse_int [] = None"
| "parse_int (ch # r) =
     (if ch = CHR ''-'' then map_option negated (unsigned_int r)
      else if ch = CHR ''+'' then unsigned_int r
      else unsigned_int (ch # r))"

text \<open>The stream after a token has been read up to \<open>rest\<close>.\<close>

definition unread :: "string \<Rightarrow> string list \<Rightarrow> string list" where
  "unread rest r = (if rest = [] then r else rest # r)"

definition get_int :: "int \<Rightarrow> istream \<Rightarrow> int \<times> istream" where
  "get_int old c =
     (if fail c then (old, c)
      else case fst c of
        [] \<Rightarrow> (old, ([], True))
      | t # r \<Rightarrow>
          (case parse_int t of
             None \<Rightarrow> (0, (r, True))
           | Some (v, rest) \<Rightarrow>
               if v < INT_MIN then (INT_MIN, (unread rest r, True))
               else if INT_MAX < v then (INT_MAX, (unread rest r, True))
               else (v, (unread rest r, False))))"

definition get_string :: "istream \<Rightarrow> string \<times> istream" where
  "get_string c =
     (if fail c then ([], c)
      else case fst c of
        [] \<Rightarrow> ([], ([], True))
      | t # r \<Rightarrow> (t, (r, False)))"

section \<open>Reading the participants and the debts\<close>

text \<open>\<open>while (k--) { string u; cin >> u; people_.back().addUPI(u); }\<close>, on the entry being built.\<close>

fun readUPIs :: "nat \<Rightarrow> person \<Rightarrow> istream \<Rightarrow> person \<times> istream" where
  "readUPIs 0 p c = (p, c)"
| "readUPIs (Suc k) p c = (case get_string c of (u, c') \<Rightarrow> readUPIs k (addUPI u p) c')"

text \<open>
  The loop \<open>for (int i = 0; i < n_; ++i)\<close> of \<open>readParticipants\<close>; the first argument is
  the number of iterations left, the second is \<open>i\<close>. The UPIs go to \<open>people_.back()\<close>,
  the entry just appended: the model appends the entry once its UPIs are read.
  \<open>k\<close> is read only when the stream is good (\<open>!cin\<close> is tested first).
\<close>

fun readEntries :: "nat \<Rightarrow> nat \<Rightarrow> cfm \<Rightarrow> istream \<Rightarrow> failure + cfm \<times> istream" where
  "readEntries 0 i s c = Inr (s, c)"
| "readEntries (Suc r) i s c =
     (case get_string c of (nm, c1) \<Rightarrow>
      case get_int 0 c1 of (k, c2) \<Rightarrow>
        if fail c2 \<or> k < 0 then Inl (Runtime_error ''Invalid entry.'')
        else (case readUPIs (nat k) (Person nm) c2 of (p, c3) \<Rightarrow>
          readEntries r (Suc i) (s\<lparr>people := people s @ [p], idx := (idx s)(nm \<mapsto> i)\<rparr>) c3))"

text \<open>
  \<open>for (i = 1; i < n_; ++i) for (auto& u : people_[i].upis()) people_[0].addUPI(u);\<close>
  the inner loop inserts every element of the set of \<open>i\<close> into the set of the Treasurer.
\<close>

definition addAllUPIs :: "nat \<Rightarrow> person list \<Rightarrow> person list" where
  "addAllUPIs i ps = ps[0 := (ps ! 0)\<lparr>upis := upis (ps ! 0) \<union> upis (ps ! i)\<rparr>]"

definition treasurerUPIs :: "nat \<Rightarrow> person list \<Rightarrow> person list" where
  "treasurerUPIs n ps = fold addAllUPIs [1..<n] ps"

definition readParticipants :: "cfm \<Rightarrow> istream \<Rightarrow> failure + cfm \<times> istream" where
  "readParticipants s c =
     (case get_int (n_count s) c of (n, c1) \<Rightarrow>
        if n < 2 then Inl (Runtime_error ''At least 2 participants required.'')
        else (case readEntries (nat n) 0
                (s\<lparr>n_count := n, debtMatrix := replicate (nat n) (replicate (nat n) 0)\<rparr>) c1 of
            Inl e \<Rightarrow> Inl e
          | Inr (s', c2) \<Rightarrow> Inr (s'\<lparr>people := treasurerUPIs (nat n) (people s')\<rparr>, c2)))"

text \<open>\<open>debtMatrix_[i][j] += a\<close>\<close>

definition addDebt :: "nat \<Rightarrow> nat \<Rightarrow> int \<Rightarrow> int list list \<Rightarrow> int list list" where
  "addDebt i j a m = m[i := (m ! i)[j := int32 (m ! i ! j + a)]]"

text \<open>The loop \<open>while (m--)\<close> of \<open>readTransactions\<close>.\<close>

fun readDebts :: "nat \<Rightarrow> cfm \<Rightarrow> istream \<Rightarrow> failure + cfm \<times> istream" where
  "readDebts 0 s c = Inr (s, c)"
| "readDebts (Suc m) s c =
     (case get_string c of (d, c1) \<Rightarrow>
      case get_string c1 of (cr, c2) \<Rightarrow>
      case get_int 0 c2 of (a, c3) \<Rightarrow>
        if fail c3 \<or> a \<le> 0 \<or> idx s d = None \<or> idx s cr = None
        then Inl (Runtime_error ''Invalid debt entry.'')
        else readDebts m
               (s\<lparr>debtMatrix := addDebt (the (idx s d)) (the (idx s cr)) a (debtMatrix s)\<rparr>) c3)"

definition readTransactions :: "cfm \<Rightarrow> istream \<Rightarrow> failure + cfm \<times> istream" where
  "readTransactions s c =
     (case get_int 0 c of (m, c1) \<Rightarrow>
        if fail c1 \<or> m < 0 then Inl (Runtime_error ''Invalid number.'')
        else readDebts (nat m) s c1)"

section \<open>Netting\<close>

text \<open>\<open>people_[i].adjustBalance(a)\<close>\<close>

definition adjust :: "nat \<Rightarrow> int \<Rightarrow> person list \<Rightarrow> person list" where
  "adjust i a ps = ps[i := adjustBalance a (ps ! i)]"

definition computeNetBalances :: "cfm \<Rightarrow> cfm" where
  "computeNetBalances s =
     s\<lparr>people :=
         fold (\<lambda>i. fold (\<lambda>j. adjust i (int32 (debtMatrix s ! j ! i - debtMatrix s ! i ! j)))
                     [0..<nat (n_count s)])
           [0..<nat (n_count s)] (people s)\<rparr>"

section \<open>Settlement planning\<close>

text \<open>
  \<open>max_element\<close> and \<open>min_element\<close> scan from the second element and move to a later
  element only when it is strictly greater (smaller): the first extreme element wins.
\<close>

definition getMaxCreditor :: "person list \<Rightarrow> nat" where
  "getMaxCreditor ps =
     fold (\<lambda>i largest. if balance (ps ! largest) < balance (ps ! i) then i else largest)
       [1..<length ps] 0"

definition getMaxDebtor :: "person list \<Rightarrow> nat" where
  "getMaxDebtor ps =
     fold (\<lambda>i smallest. if balance (ps ! i) < balance (ps ! smallest) then i else smallest)
       [1..<length ps] 0"

text \<open>
  One iteration of the loop of \<open>findSettlement\<close>; \<open>set_intersection\<close> of two sorted
  ranges is the intersection in sorted order, and \<open>common.front()\<close> its least element.
\<close>

definition findStep :: "person list \<Rightarrow> nat \<Rightarrow> nat \<Rightarrow> int \<times> int \<times> string \<Rightarrow> int \<times> int \<times> string" where
  "findStep ps debtor i acc =
     (case acc of (bestCred, bestBal, via) \<Rightarrow>
        if balance (ps ! i) \<le> 0 then acc
        else let common = upis (ps ! debtor) \<inter> upis (ps ! i) in
          if common \<noteq> {} \<and> balance (ps ! i) > bestBal
          then (int i, balance (ps ! i), Min common)
          else acc)"

definition findSettlement :: "cfm \<Rightarrow> nat \<Rightarrow> int \<times> int \<times> string" where
  "findSettlement s debtor =
     (case fold (findStep (people s) debtor) [0..<nat (n_count s)] (- 1, INT_MIN, []) of
        (bestCred, bestBal, via) \<Rightarrow> (bestCred, if bestCred \<ge> 0 then bestBal else 0, via))"

text \<open>
  \<open>updateSettled\<close>: the vector \<open>settled\<close> is written and never read; \<open>settledCount\<close> is
  the number of indices below \<open>n_\<close> with balance zero.
\<close>

definition settledCount :: "cfm \<Rightarrow> int" where
  "settledCount s = int (length (filter (\<lambda>i. balance (people s ! i) = 0) [0..<nat (n_count s)]))"

text \<open>\<open>*people_[i].upis().begin()\<close>: undefined on an empty set.\<close>

definition first_upi :: "person \<Rightarrow> failure + string" where
  "first_upi p = (if upis p = {} then Inl Undefined_behaviour else Inr (Min (upis p)))"

text \<open>The direct branch (lines 130 to 133).\<close>

definition directTransfer :: "nat \<Rightarrow> int \<Rightarrow> int \<Rightarrow> string \<Rightarrow> cfm \<Rightarrow> cfm" where
  "directTransfer d cBalance transfer via s =
     s\<lparr>result := result s @ [(int d, cBalance, transfer, via)],
       people := adjust (nat cBalance) (int32 (- transfer)) (adjust d transfer (people s))\<rparr>"

text \<open>The first transfer of the fallback branch, debtor to Treasurer (lines 135 to 139).\<close>

definition debtorToTreasurer :: "nat \<Rightarrow> int \<Rightarrow> cfm \<Rightarrow> failure + cfm" where
  "debtorToTreasurer d amtToPay s =
     (let t = 0 in
      case first_upi (people s ! d) of
        Inl e \<Rightarrow> Inl e
      | Inr u \<Rightarrow>
          Inr (s\<lparr>result := result s @ [(int d, int t, amtToPay, u)],
                 people := adjust d amtToPay (adjust t amtToPay (people s))\<rparr>))"

text \<open>The second transfer, Treasurer to highest creditor (lines 141 to 145).\<close>

definition treasurerToCreditor :: "cfm \<Rightarrow> failure + cfm" where
  "treasurerToCreditor s =
     (let t = 0; fc = getMaxCreditor (people s); tamt = balance (people s ! t) in
      case first_upi (people s ! fc) of
        Inl e \<Rightarrow> Inl e
      | Inr u \<Rightarrow>
          Inr (s\<lparr>result := result s @ [(int t, int fc, tamt, u)],
                 people := adjust t (int32 (- tamt)) (adjust fc (int32 (- tamt)) (people s))\<rparr>))"

text \<open>The body of the \<open>while\<close> loop of \<open>settleDebts\<close>.\<close>

definition settleRound :: "cfm \<Rightarrow> failure + cfm" where
  "settleRound s =
     (let d = getMaxDebtor (people s); amtToPay = int32 (- balance (people s ! d)) in
      case findSettlement s d of
        (cBalance, bal, via) \<Rightarrow>
          if cBalance \<ge> 0 then Inr (directTransfer d cBalance (min amtToPay bal) via s)
          else (case debtorToTreasurer d amtToPay s of
                  Inl e \<Rightarrow> Inl e
                | Inr s' \<Rightarrow> treasurerToCreditor s'))"

text \<open>
  \<open>while (settledCount < n_) { ... updateSettled(); }\<close>: the loop may run forever, so
  its result is an option, \<open>None\<close> when it does not return.
\<close>

partial_function (option) settleLoop :: "cfm \<Rightarrow> (failure + cfm) option" where
  "settleLoop s =
     (if settledCount s < n_count s
      then (case settleRound s of Inl e \<Rightarrow> Some (Inl e) | Inr s' \<Rightarrow> settleLoop s')
      else Some (Inr s))"

declare settleLoop.simps [code]

definition settleDebts :: "cfm \<Rightarrow> (failure + cfm) option" where
  "settleDebts s = settleLoop s"

section \<open>The run\<close>

text \<open>
  \<open>readParticipants(); readTransactions(); computeNetBalances();\<close> on a fresh object:
  the state in which \<open>settleDebts\<close> starts.
\<close>

definition netted :: "string list \<Rightarrow> failure + cfm" where
  "netted toks =
     (case readParticipants CashFlowMinimizer (toks, False) of
        Inl e \<Rightarrow> Inl e
      | Inr (s1, c1) \<Rightarrow>
          (case readTransactions s1 c1 of
             Inl e \<Rightarrow> Inl e
           | Inr (s2, c2) \<Rightarrow> Inr (computeNetBalances s2)))"

text \<open>
  \<open>run\<close>, from the tokens on standard input to the settlement plan that \<open>printResults\<close>
  prints row by row (\<open>None\<close>: the run does not return).
\<close>

definition run :: "string list \<Rightarrow> (failure + transfer list) option" where
  "run toks =
     (case netted toks of
        Inl e \<Rightarrow> Some (Inl e)
      | Inr s \<Rightarrow> map_option (map_sum id result) (settleDebts s))"

section \<open>Notions used in the statements\<close>

text \<open>The balances of all participants, in index order, and their sum.\<close>

definition balances :: "cfm \<Rightarrow> int list" where
  "balances s = map balance (people s)"

definition totalBalance :: "cfm \<Rightarrow> int" where
  "totalBalance s = sum_list (balances s)"

text \<open>
  The balance that the specification assigns to participant \<open>i\<close> for the matrix \<open>m\<close> of
  size \<open>n\<close>, over the integers: \<open>\<Sum>j. debt[j][i] - \<Sum>j. debt[i][j]\<close>. This definition follows
  the words of the specification; the code is compared with it.
\<close>

definition spec_balance :: "int list list \<Rightarrow> nat \<Rightarrow> nat \<Rightarrow> int" where
  "spec_balance m n i = (\<Sum>j<n. m ! j ! i) - (\<Sum>j<n. m ! i ! j)"

text \<open>The sum of the amounts that the loops of \<open>computeNetBalances\<close> add to participant \<open>i\<close>.\<close>

definition net :: "int list list \<Rightarrow> nat \<Rightarrow> nat \<Rightarrow> int" where
  "net m n i = (\<Sum>j<n. int32 (m ! j ! i - m ! i ! j))"

text \<open>
  Participant \<open>i\<close> is a direct creditor for the debtor \<open>d\<close>: its balance is positive and
  it shares a UPI with \<open>d\<close>.
\<close>

definition eligible :: "person list \<Rightarrow> nat \<Rightarrow> nat \<Rightarrow> bool" where
  "eligible ps d i \<longleftrightarrow> 0 < balance (ps ! i) \<and> upis (ps ! d) \<inter> upis (ps ! i) \<noteq> {}"

text \<open>The set of the Treasurer (index 0) contains the set of every participant.\<close>

definition treasurerUniversal :: "cfm \<Rightarrow> bool" where
  "treasurerUniversal s \<longleftrightarrow> (\<forall>i<length (people s). upis (people s ! i) \<subseteq> upis (people s ! 0))"

text \<open>
  The state after exactly \<open>k\<close> iterations of the loop of \<open>settleDebts\<close>: \<open>None\<close> when the
  loop has left before, \<open>Some (Inl e)\<close> when an iteration has failed.
\<close>

fun rounds :: "nat \<Rightarrow> cfm \<Rightarrow> (failure + cfm) option" where
  "rounds 0 s = Some (Inr s)"
| "rounds (Suc k) s =
     (if settledCount s < n_count s
      then (case settleRound s of Inl e \<Rightarrow> Some (Inl e) | Inr s' \<Rightarrow> rounds k s')
      else None)"

subsection \<open>Inputs of the scenarios\<close>

text \<open>
  The third scenario of the specification: Treasurer \<open>T\<close> with \<open>{A}\<close>, \<open>P1\<close> with \<open>{B}\<close>,
  \<open>P2\<close> with \<open>{C}\<close>, and \<open>P1\<close> owes \<open>P2\<close> 7.
\<close>

definition scenario_fallback :: "string list" where
  "scenario_fallback =
     [''3'', ''T'', ''1'', ''A'', ''P1'', ''1'', ''B'', ''P2'', ''1'', ''C'',
      ''1'', ''P1'', ''P2'', ''7'']"

text \<open>
  The first scenario of the specification: \<open>T\<close> with \<open>{A}\<close>, \<open>P1\<close> with \<open>{A, B}\<close>, \<open>P2\<close> with
  \<open>{B}\<close>, and \<open>P2\<close> owes \<open>P1\<close> 10.
\<close>

definition scenario_direct :: "string list" where
  "scenario_direct =
     [''3'', ''T'', ''1'', ''A'', ''P1'', ''2'', ''A'', ''B'', ''P2'', ''1'', ''B'',
      ''1'', ''P2'', ''P1'', ''10'']"

text \<open>
  The participants of the third scenario, where the Treasurer is a debtor too: \<open>T\<close> owes
  \<open>P2\<close> 1 and \<open>P1\<close> owes \<open>P2\<close> 7.
\<close>

definition scenario_treasurer_owes :: "string list" where
  "scenario_treasurer_owes =
     [''3'', ''T'', ''1'', ''A'', ''P1'', ''1'', ''B'', ''P2'', ''1'', ''C'',
      ''2'', ''T'', ''P2'', ''1'', ''P1'', ''P2'', ''7'']"

text \<open>
  A debtor registered with a UPI count of zero: \<open>T\<close> with \<open>{A}\<close>, \<open>P1\<close> with no UPI, \<open>P2\<close>
  with \<open>{A}\<close>, and \<open>P1\<close> owes \<open>P2\<close> 5.
\<close>

definition scenario_no_upi :: "string list" where
  "scenario_no_upi =
     [''3'', ''T'', ''1'', ''A'', ''P1'', ''0'', ''P2'', ''1'', ''A'',
      ''1'', ''P1'', ''P2'', ''5'']"

text \<open>
  Two debts of \<open>INT_MAX\<close> to the Treasurer: \<open>T\<close>, \<open>P\<close> and \<open>Q\<close> with \<open>{A}\<close> each, \<open>P\<close> owes
  \<open>T\<close> 2147483647 and \<open>Q\<close> owes \<open>T\<close> 2147483647.
\<close>

definition scenario_overflow :: "string list" where
  "scenario_overflow =
     [''3'', ''T'', ''1'', ''A'', ''P'', ''1'', ''A'', ''Q'', ''1'', ''A'',
      ''2'', ''P'', ''T'', ''2147483647'', ''Q'', ''T'', ''2147483647'']"

text \<open>
  Two participants registered with a UPI count of zero, and \<open>P\<close> owes \<open>T\<close> 5.
\<close>

definition scenario_two_no_upi :: "string list" where
  "scenario_two_no_upi = [''2'', ''T'', ''0'', ''P'', ''0'', ''1'', ''P'', ''T'', ''5'']"

text \<open>
  The participants of the third scenario, each with one UPI: \<open>T\<close> owes \<open>P2\<close> 2 and \<open>P1\<close>
  owes \<open>P2\<close> 3.
\<close>

definition scenario_two_debtors :: "string list" where
  "scenario_two_debtors =
     [''3'', ''T'', ''1'', ''A'', ''P1'', ''1'', ''B'', ''P2'', ''1'', ''C'',
      ''2'', ''T'', ''P2'', ''2'', ''P1'', ''P2'', ''3'']"

subsection \<open>Numeral tokens\<close>

text \<open>The token \<open>t\<close> is, as a whole, the numeral \<open>v\<close>, in the range of \<open>int\<close>.\<close>

definition int_token :: "string \<Rightarrow> int \<Rightarrow> bool" where
  "int_token t v \<longleftrightarrow> parse_int t = Some (v, []) \<and> INT_MIN \<le> v \<and> v \<le> INT_MAX"

section \<open>Lemmas\<close>

subsection \<open>Arithmetic in 32 bits, and netting\<close>

lemma int32_mod: "int32 x mod 4294967296 = x mod 4294967296"
proof -
  have "int32 x mod 4294967296 = ((x + 2147483648) mod 4294967296 - 2147483648) mod 4294967296"
    by (simp add: int32_def)
  also have "\<dots> = ((x + 2147483648) - 2147483648) mod 4294967296"
    by (rule mod_diff_left_eq)
  finally show ?thesis by simp
qed

lemma int32_eqI: "x mod 4294967296 = y mod 4294967296 \<Longrightarrow> int32 x = int32 y"
proof -
  assume "x mod 4294967296 = y mod 4294967296"
  then have "(x + 2147483648) mod 4294967296 = (y + 2147483648) mod 4294967296"
    by (rule mod_add_cong) simp
  then show ?thesis by (simp add: int32_def)
qed

lemma int32_eqD: "int32 x = int32 y \<Longrightarrow> x mod 4294967296 = y mod 4294967296"
  using int32_mod[of x] int32_mod[of y] by simp

lemma in_range_int32 [simp]: "in_range (int32 x)"
proof -
  have "0 \<le> (x + 2147483648) mod 4294967296" "(x + 2147483648) mod 4294967296 < 4294967296"
    by simp_all
  then show ?thesis by (simp add: in_range_def int32_def INT_MIN_def INT_MAX_def)
qed

lemma int32_id: "in_range x \<Longrightarrow> int32 x = x"
proof -
  assume "in_range x"
  then have "0 \<le> x + 2147483648" "x + 2147483648 < 4294967296"
    by (simp_all add: in_range_def INT_MIN_def INT_MAX_def)
  then have "(x + 2147483648) mod 4294967296 = x + 2147483648" by simp
  then show ?thesis by (simp add: int32_def)
qed

lemma int32_int32 [simp]: "int32 (int32 x) = int32 x"
  by (rule int32_eqI) (rule int32_mod)

lemma int32_0 [simp]: "int32 0 = 0"
  by (simp add: int32_def)

lemma int32_add_left [simp]: "int32 (int32 x + y) = int32 (x + y)"
  by (rule int32_eqI, rule mod_add_cong) (simp_all add: int32_mod)

lemma int32_add_right [simp]: "int32 (x + int32 y) = int32 (x + y)"
  by (rule int32_eqI, rule mod_add_cong) (simp_all add: int32_mod)

lemma int32_diff_left [simp]: "int32 (int32 x - y) = int32 (x - y)"
  by (rule int32_eqI, rule mod_diff_cong) (simp_all add: int32_mod)

lemma int32_diff_right [simp]: "int32 (x - int32 y) = int32 (x - y)"
  by (rule int32_eqI, rule mod_diff_cong) (simp_all add: int32_mod)

lemma int32_sum: "int32 (\<Sum>j\<in>A. int32 (f j)) = int32 (\<Sum>j\<in>A. f j)"
proof (rule int32_eqI)
  have "(\<Sum>j\<in>A. int32 (f j)) mod 4294967296 = (\<Sum>j\<in>A. int32 (f j) mod 4294967296) mod 4294967296"
    by (rule mod_sum_eq[symmetric])
  also have "\<dots> = (\<Sum>j\<in>A. f j mod 4294967296) mod 4294967296"
    by (simp add: int32_mod)
  also have "\<dots> = (\<Sum>j\<in>A. f j) mod 4294967296"
    by (rule mod_sum_eq)
  finally show "(\<Sum>j\<in>A. int32 (f j)) mod 4294967296 = (\<Sum>j\<in>A. f j) mod 4294967296" .
qed

lemma length_adjust [simp]: "length (adjust i a ps) = length ps"
  by (simp add: adjust_def)

lemma nth_adjust:
  "adjust i a ps ! k = (if k = i \<and> i < length ps then adjustBalance a (ps ! i) else ps ! k)"
  by (cases "i < length ps") (simp_all add: adjust_def nth_list_update list_update_beyond)

lemma upis_adjustBalance [simp]: "upis (adjustBalance a p) = upis p"
  by (simp add: adjustBalance_def)

lemma balance_adjustBalance [simp]: "balance (adjustBalance a p) = int32 (balance p + a)"
  by (simp add: adjustBalance_def)

lemma adjustBalance_add: "adjustBalance a (adjustBalance b p) = adjustBalance (b + a) p"
  by (simp add: adjustBalance_def add.assoc)

lemma adjust_adjust: "adjust i a (adjust i b ps) = adjust i (b + a) ps"
  by (cases "i < length ps") (simp_all add: adjust_def adjustBalance_add list_update_beyond)

lemma fold_adjust_same_app:
  "js \<noteq> [] \<Longrightarrow> fold (\<lambda>j. adjust i (f j)) js ps = adjust i (sum_list (map f js)) ps"
proof (induction js arbitrary: ps)
  case Nil
  then show ?case by simp
next
  case (Cons j js)
  show ?case
  proof (cases "js = []")
    case True
    then show ?thesis by simp
  next
    case False
    then show ?thesis by (simp add: Cons.IH adjust_adjust)
  qed
qed

lemma fold_adjust_same:
  "js \<noteq> [] \<Longrightarrow> fold (\<lambda>j. adjust i (f j)) js = adjust i (sum_list (map f js))"
  by (rule ext) (rule fold_adjust_same_app)

lemma length_fold_adjust [simp]:
  "length (fold (\<lambda>i. adjust i (g i)) is ps) = length ps"
  by (induction "is" arbitrary: ps) simp_all

lemma nth_fold_adjust:
  "k \<le> length ps \<Longrightarrow> i < length ps \<Longrightarrow>
   fold (\<lambda>i. adjust i (g i)) [0..<k] ps ! i =
     (if i < k then adjustBalance (g i) (ps ! i) else ps ! i)"
proof (induction k)
  case 0
  show ?case by simp
next
  case (Suc k)
  then show ?case by (auto simp: nth_adjust less_Suc_eq)
qed

lemma sum_list_upt: "sum_list (map f [0..<n]) = (\<Sum>j<n. f j)"
  by (simp add: interv_sum_list_conv_sum_set_nat atLeast0LessThan)

lemma people_computeNetBalances:
  "people (computeNetBalances s) =
     fold (\<lambda>i. adjust i (net (debtMatrix s) (nat (n_count s)) i)) [0..<nat (n_count s)] (people s)"
proof (cases "nat (n_count s) = 0")
  case True
  then show ?thesis by (simp add: computeNetBalances_def)
next
  case False
  then have "[0..<nat (n_count s)] \<noteq> []" by simp
  then show ?thesis
    by (simp add: computeNetBalances_def fold_adjust_same sum_list_upt net_def)
qed

lemma length_people_computeNetBalances [simp]:
  "length (people (computeNetBalances s)) = length (people s)"
  by (simp add: people_computeNetBalances)

lemma nth_people_computeNetBalances:
  "length (people s) = nat (n_count s) \<Longrightarrow> i < nat (n_count s) \<Longrightarrow>
   people (computeNetBalances s) ! i =
     adjustBalance (net (debtMatrix s) (nat (n_count s)) i) (people s ! i)"
  by (simp add: people_computeNetBalances nth_fold_adjust)

lemma net_diagonal: "net (m[k := (m ! k)[k := v]]) n i = net m n i"
  unfolding net_def
proof (rule sum.cong[OF refl])
  fix j assume "j \<in> {..<n}"
  show "int32 (m[k := (m ! k)[k := v]] ! j ! i - m[k := (m ! k)[k := v]] ! i ! j) =
        int32 (m ! j ! i - m ! i ! j)"
    by (cases "j = k"; cases "i = k"; cases "k < length m"; cases "k < length (m ! k)")
       (simp_all add: nth_list_update list_update_beyond)
qed

lemma int32_net: "int32 (net m n i) = int32 (spec_balance m n i)"
proof -
  have "int32 (net m n i) = int32 (\<Sum>j<n. m ! j ! i - m ! i ! j)"
    unfolding net_def by (rule int32_sum)
  also have "(\<Sum>j<n. m ! j ! i - m ! i ! j) = spec_balance m n i"
    by (simp add: spec_balance_def sum_subtractf)
  finally show ?thesis .
qed

lemma spec_balance_split:
  "i < n \<Longrightarrow> spec_balance m n i =
     (\<Sum>j\<in>{..<n} - {i}. m ! j ! i) - (\<Sum>j\<in>{..<n} - {i}. m ! i ! j)"
proof -
  assume "i < n"
  then have e: "{..<n} = insert i ({..<n} - {i})" by auto
  have "(\<Sum>j<n. m ! j ! i) = m ! i ! i + (\<Sum>j\<in>{..<n} - {i}. m ! j ! i)"
    by (subst e, subst sum.insert) simp_all
  moreover have "(\<Sum>j<n. m ! i ! j) = m ! i ! i + (\<Sum>j\<in>{..<n} - {i}. m ! i ! j)"
    by (subst e, subst sum.insert) simp_all
  ultimately show ?thesis by (simp add: spec_balance_def)
qed

lemma sum_spec_balance: "(\<Sum>i<n. spec_balance m n i) = 0"
proof -
  have "(\<Sum>i<n. spec_balance m n i) = (\<Sum>i<n. \<Sum>j<n. m ! j ! i) - (\<Sum>i<n. \<Sum>j<n. m ! i ! j)"
    by (simp add: spec_balance_def sum_subtractf)
  also have "(\<Sum>i<n. \<Sum>j<n. m ! j ! i) = (\<Sum>i<n. \<Sum>j<n. m ! i ! j)"
    by (rule sum.swap)
  finally show ?thesis by simp
qed

lemma sum_balance_adjust:
  "i < length ps \<Longrightarrow>
   sum_list (map balance (adjust i a ps)) =
     sum_list (map balance ps) + (int32 (balance (ps ! i) + a) - balance (ps ! i))"
proof (induction ps arbitrary: i)
  case Nil
  then show ?case by simp
next
  case (Cons p ps)
  then show ?case by (cases i) (simp_all add: adjust_def)
qed

lemma sum_balance_adjust_exact:
  "i < length ps \<Longrightarrow> in_range (balance (ps ! i) + a) \<Longrightarrow>
   sum_list (map balance (adjust i a ps)) = sum_list (map balance ps) + a"
  by (simp add: sum_balance_adjust int32_id)

lemma sum_balance_adjust_int32:
  "i < length ps \<Longrightarrow>
   int32 (sum_list (map balance (adjust i a ps))) = int32 (sum_list (map balance ps) + a)"
proof -
  assume i: "i < length ps"
  let ?S = "sum_list (map balance ps)" and ?b = "balance (ps ! i)"
  have "int32 (?S + (int32 (?b + a) - ?b)) = int32 ((?S - ?b) + int32 (?b + a))"
    by (simp add: algebra_simps)
  also have "\<dots> = int32 ((?S - ?b) + (?b + a))" by (rule int32_add_right)
  also have "\<dots> = int32 (?S + a)" by simp
  finally show ?thesis using i by (simp add: sum_balance_adjust)
qed

subsection \<open>Extraction from standard input\<close>

lemma get_int_token: "int_token t v \<Longrightarrow> get_int old (t # r, False) = (v, (r, False))"
  by (simp add: get_int_def int_token_def fail_def unread_def)

lemma get_string_token: "get_string (t # r, False) = (t, (r, False))"
  by (simp add: get_string_def fail_def)

subsection \<open>Reading the participants\<close>

lemma balance_fold_addUPI [simp]: "balance (fold addUPI us p) = balance p"
  by (induction us arbitrary: p) (simp_all add: addUPI_def)

lemma balance_readUPIs [simp]: "balance (fst (readUPIs k p c)) = balance p"
  by (induction k arbitrary: p c) (simp_all add: addUPI_def split: prod.splits)

lemma readEntries_frame:
  "readEntries k i s c = Inr (s', c') \<Longrightarrow>
     n_count s' = n_count s \<and> debtMatrix s' = debtMatrix s \<and> result s' = result s \<and>
     length (people s') = length (people s) + k"
  by (induction k arbitrary: i s c) (auto split: prod.splits if_splits)

lemma readEntries_balance:
  "readEntries k i s c = Inr (s', c') \<Longrightarrow> \<forall>p\<in>set (people s). balance p = 0 \<Longrightarrow>
     \<forall>p\<in>set (people s'). balance p = 0"
proof (induction k arbitrary: i s c)
  case 0
  then show ?case by simp
next
  case (Suc k)
  obtain nm c1 where g1: "get_string c = (nm, c1)" by (cases "get_string c")
  obtain kv c2 where g2: "get_int 0 c1 = (kv, c2)" by (cases "get_int 0 c1")
  obtain p c3 where g3: "readUPIs (nat kv) (Person nm) c2 = (p, c3)"
    by (cases "readUPIs (nat kv) (Person nm) c2")
  have "balance (fst (readUPIs (nat kv) (Person nm) c2)) = 0"
    by (simp add: Person_def)
  with g3 have bp: "balance p = 0" by simp
  from Suc.prems(1) g1 g2 g3 have
    rec: "readEntries k (Suc i) (s\<lparr>people := people s @ [p], idx := (idx s)(nm \<mapsto> i)\<rparr>) c3 = Inr (s', c')"
    by (simp split: if_splits)
  show ?case
    by (rule Suc.IH[OF rec]) (use Suc.prems(2) bp in auto)
qed

lemma readEntries_idx:
  "readEntries k i s c = Inr (s', c') \<Longrightarrow> \<forall>nm j. idx s nm = Some j \<longrightarrow> j < i \<Longrightarrow>
     \<forall>nm j. idx s' nm = Some j \<longrightarrow> j < i + k"
proof (induction k arbitrary: i s c)
  case 0
  then show ?case by simp
next
  case (Suc k)
  obtain nm c1 where g1: "get_string c = (nm, c1)" by (cases "get_string c")
  obtain kv c2 where g2: "get_int 0 c1 = (kv, c2)" by (cases "get_int 0 c1")
  obtain p c3 where g3: "readUPIs (nat kv) (Person nm) c2 = (p, c3)"
    by (cases "readUPIs (nat kv) (Person nm) c2")
  from Suc.prems(1) g1 g2 g3 have
    rec: "readEntries k (Suc i) (s\<lparr>people := people s @ [p], idx := (idx s)(nm \<mapsto> i)\<rparr>) c3 = Inr (s', c')"
    by (simp split: if_splits)
  have "\<forall>nm' j. idx (s\<lparr>people := people s @ [p], idx := (idx s)(nm \<mapsto> i)\<rparr>) nm' = Some j \<longrightarrow> j < Suc i"
    using Suc.prems(2) by (auto simp: less_Suc_eq)
  from Suc.IH[OF rec this] show ?case by simp
qed

subsection \<open>Reading the debts\<close>

lemma length_addDebt [simp]: "length (addDebt i j a m) = length m"
  by (simp add: addDebt_def)

lemma map_length_addDebt [simp]: "map length (addDebt i j a m) = map length m"
proof (rule nth_equalityI)
  show "length (map length (addDebt i j a m)) = length (map length m)" by simp
next
  fix k assume "k < length (map length (addDebt i j a m))"
  then show "map length (addDebt i j a m) ! k = map length m ! k"
    by (cases "k = i") (simp_all add: addDebt_def)
qed

lemma readDebts_frame:
  "readDebts k s c = Inr (s', c') \<Longrightarrow>
     n_count s' = n_count s \<and> people s' = people s \<and> idx s' = idx s \<and> result s' = result s \<and>
     map length (debtMatrix s') = map length (debtMatrix s)"
  by (induction k arbitrary: s c) (auto split: prod.splits if_splits)

subsection \<open>The UPIs of the Treasurer\<close>

lemma length_addAllUPIs [simp]: "length (addAllUPIs i ps) = length ps"
  by (simp add: addAllUPIs_def)

lemma length_fold_addAllUPIs [simp]: "length (fold addAllUPIs js ps) = length ps"
  by (induction js arbitrary: ps) simp_all

lemma nth_addAllUPIs: "0 < k \<Longrightarrow> addAllUPIs i ps ! k = ps ! k"
  by (simp add: addAllUPIs_def)

lemma nth_fold_addAllUPIs: "0 < k \<Longrightarrow> fold addAllUPIs js ps ! k = ps ! k"
  by (induction js arbitrary: ps) (simp_all add: nth_addAllUPIs)

lemma balance_addAllUPIs [simp]: "map balance (addAllUPIs i ps) = map balance ps"
proof (rule nth_equalityI)
  show "length (map balance (addAllUPIs i ps)) = length (map balance ps)" by simp
next
  fix k assume "k < length (map balance (addAllUPIs i ps))"
  then show "map balance (addAllUPIs i ps) ! k = map balance ps ! k"
    by (cases k) (simp_all add: addAllUPIs_def)
qed

lemma balance_fold_addAllUPIs [simp]: "map balance (fold addAllUPIs js ps) = map balance ps"
  by (induction js arbitrary: ps) simp_all

lemma upis_fold_addAllUPIs:
  "ps \<noteq> [] \<Longrightarrow> 0 \<notin> set js \<Longrightarrow>
   upis (fold addAllUPIs js ps ! 0) = upis (ps ! 0) \<union> (\<Union>i\<in>set js. upis (ps ! i))"
proof (induction js arbitrary: ps)
  case Nil
  show ?case by simp
next
  case (Cons j js)
  from Cons.prems have j: "0 < j" "0 \<notin> set js" by auto
  have ne: "addAllUPIs j ps \<noteq> []" using Cons.prems(1) by (simp add: addAllUPIs_def)
  have same: "\<And>i. i \<in> set js \<Longrightarrow> addAllUPIs j ps ! i = ps ! i"
    using j(2) by (intro nth_addAllUPIs) (metis gr0I)
  have hd: "upis (addAllUPIs j ps ! 0) = upis (ps ! 0) \<union> upis (ps ! j)"
    using Cons.prems(1) by (simp add: addAllUPIs_def)
  have tl: "(\<Union>i\<in>set js. upis (addAllUPIs j ps ! i)) = (\<Union>i\<in>set js. upis (ps ! i))"
    using same by simp
  have "upis (fold addAllUPIs (j # js) ps ! 0) =
        upis (addAllUPIs j ps ! 0) \<union> (\<Union>i\<in>set js. upis (addAllUPIs j ps ! i))"
    using Cons.IH[OF ne j(2)] by simp
  also have "\<dots> = (upis (ps ! 0) \<union> upis (ps ! j)) \<union> (\<Union>i\<in>set js. upis (ps ! i))"
    by (simp only: hd tl)
  also have "\<dots> = upis (ps ! 0) \<union> (\<Union>i\<in>set (j # js). upis (ps ! i))"
    by (simp add: Un_assoc)
  finally show ?case .
qed

lemma treasurerUPIs_superset:
  assumes "i < length ps" "length ps = n"
  shows "upis (treasurerUPIs n ps ! i) \<subseteq> upis (treasurerUPIs n ps ! 0)"
proof (cases "i = 0")
  case True
  then show ?thesis by simp
next
  case False
  with assms have ne: "ps \<noteq> []" and i: "i \<in> set [1..<n]" and pos: "0 < i" by auto
  have t: "upis (treasurerUPIs n ps ! 0) = upis (ps ! 0) \<union> (\<Union>k\<in>set [1..<n]. upis (ps ! k))"
    unfolding treasurerUPIs_def by (rule upis_fold_addAllUPIs[OF ne]) simp
  have m: "treasurerUPIs n ps ! i = ps ! i"
    unfolding treasurerUPIs_def by (rule nth_fold_addAllUPIs[OF pos])
  have "upis (ps ! i) \<subseteq> (\<Union>k\<in>set [1..<n]. upis (ps ! k))"
    using i by (rule UN_upper)
  then show ?thesis unfolding t m by (rule le_supI2)
qed

subsection \<open>Accepted input\<close>

lemma readTransactions_frame:
  "readTransactions s c = Inr (s', c') \<Longrightarrow>
     n_count s' = n_count s \<and> people s' = people s \<and> idx s' = idx s \<and> result s' = result s \<and>
     map length (debtMatrix s') = map length (debtMatrix s)"
  by (auto simp: readTransactions_def split: prod.splits if_splits dest: readDebts_frame)

lemma all_balance_zero: "(\<forall>p\<in>set ps. balance p = 0) \<longleftrightarrow> map balance ps = replicate (length ps) 0"
  by (induction ps) auto

lemma readParticipants_shape:
  assumes "readParticipants CashFlowMinimizer c = Inr (s, c')"
  shows "2 \<le> n_count s" and "length (people s) = nat (n_count s)"
    and "debtMatrix s = replicate (nat (n_count s)) (replicate (nat (n_count s)) 0)"
    and "\<forall>p\<in>set (people s). balance p = 0" and "result s = []"
    and "\<forall>nm j. idx s nm = Some j \<longrightarrow> j < nat (n_count s)"
proof -
  obtain n c1 where g: "get_int (n_count CashFlowMinimizer) c = (n, c1)"
    by (cases "get_int (n_count CashFlowMinimizer) c")
  let ?s0 = "CashFlowMinimizer\<lparr>n_count := n, debtMatrix := replicate (nat n) (replicate (nat n) 0)\<rparr>"
  from assms g obtain s1 where n: "2 \<le> n"
    and r: "readEntries (nat n) 0 ?s0 c1 = Inr (s1, c')"
    and s: "s = s1\<lparr>people := treasurerUPIs (nat n) (people s1)\<rparr>"
    by (auto simp: readParticipants_def split: if_splits sum.splits)
  from readEntries_frame[OF r] have f: "n_count s1 = n"
    "debtMatrix s1 = replicate (nat n) (replicate (nat n) 0)" "result s1 = []"
    "length (people s1) = nat n"
    by (simp_all add: CashFlowMinimizer_def)
  have "\<forall>p\<in>set (people s1). balance p = 0"
    by (rule readEntries_balance[OF r]) (simp add: CashFlowMinimizer_def)
  then have b: "\<forall>p\<in>set (people s). balance p = 0"
    unfolding all_balance_zero s by (simp add: treasurerUPIs_def)
  have i: "\<forall>nm j. idx s1 nm = Some j \<longrightarrow> j < 0 + nat n"
    by (rule readEntries_idx[OF r]) (simp add: CashFlowMinimizer_def)
  show "2 \<le> n_count s" using n f s by simp
  show "length (people s) = nat (n_count s)" using f s by (simp add: treasurerUPIs_def)
  show "debtMatrix s = replicate (nat (n_count s)) (replicate (nat (n_count s)) 0)"
    using f s by simp
  show "\<forall>p\<in>set (people s). balance p = 0" by (rule b)
  show "result s = []" using f s by simp
  show "\<forall>nm j. idx s nm = Some j \<longrightarrow> j < nat (n_count s)" using i f s by simp
qed

lemma readParticipants_universal:
  assumes "readParticipants CashFlowMinimizer c = Inr (s, c')" and "i < length (people s)"
  shows "upis (people s ! i) \<subseteq> upis (people s ! 0)"
proof -
  obtain n c1 where g: "get_int (n_count CashFlowMinimizer) c = (n, c1)"
    by (cases "get_int (n_count CashFlowMinimizer) c")
  let ?s0 = "CashFlowMinimizer\<lparr>n_count := n, debtMatrix := replicate (nat n) (replicate (nat n) 0)\<rparr>"
  from assms g obtain s1 where
        r: "readEntries (nat n) 0 ?s0 c1 = Inr (s1, c')"
    and s: "s = s1\<lparr>people := treasurerUPIs (nat n) (people s1)\<rparr>"
    by (auto simp: readParticipants_def split: if_splits sum.splits)
  from readEntries_frame[OF r] have l: "length (people s1) = nat n"
    by (simp add: CashFlowMinimizer_def)
  from assms(2) have "i < length (people s1)" by (simp add: s treasurerUPIs_def)
  from treasurerUPIs_superset[OF this l] show ?thesis by (simp add: s)
qed

subsection \<open>Selection of debtor and creditor\<close>

lemma fold_select_mem:
  "fold (\<lambda>i b. if P i b then i else b) js b0 \<in> insert b0 (set js)"
  by (induction js arbitrary: b0) auto

lemma getMaxDebtor_less: "ps \<noteq> [] \<Longrightarrow> getMaxDebtor ps < length ps"
  using fold_select_mem[of "\<lambda>i b. balance (ps ! i) < balance (ps ! b)" "[1..<length ps]" 0]
  by (auto simp: getMaxDebtor_def)

lemma getMaxCreditor_less: "ps \<noteq> [] \<Longrightarrow> getMaxCreditor ps < length ps"
  using fold_select_mem[of "\<lambda>i b. balance (ps ! b) < balance (ps ! i)" "[1..<length ps]" 0]
  by (auto simp: getMaxCreditor_def)

lemma findStep_inv:
  assumes "(c = - 1 \<and> b = INT_MIN \<and> (\<forall>i<k. \<not> eligible ps d i)) \<or>
           (0 \<le> c \<and> nat c < k \<and> eligible ps d (nat c) \<and> b = balance (ps ! nat c) \<and>
            v = Min (upis (ps ! d) \<inter> upis (ps ! nat c)))"
    and "findStep ps d k (c, b, v) = (c', b', v')"
  shows "(c' = - 1 \<and> b' = INT_MIN \<and> (\<forall>i<Suc k. \<not> eligible ps d i)) \<or>
         (0 \<le> c' \<and> nat c' < Suc k \<and> eligible ps d (nat c') \<and> b' = balance (ps ! nat c') \<and>
          v' = Min (upis (ps ! d) \<inter> upis (ps ! nat c')))"
proof (cases "eligible ps d k")
  case False
  then have "findStep ps d k (c, b, v) = (c, b, v)"
    by (auto simp: findStep_def eligible_def Let_def)
  with assms False show ?thesis by (auto simp: less_Suc_eq)
next
  case True
  show ?thesis
  proof (cases "b < balance (ps ! k)")
    case True
    with \<open>eligible ps d k\<close> have "findStep ps d k (c, b, v) = (int k, balance (ps ! k), Min (upis (ps ! d) \<inter> upis (ps ! k)))"
      by (auto simp: findStep_def eligible_def Let_def)
    with assms(2) \<open>eligible ps d k\<close> show ?thesis by auto
  next
    case False
    with \<open>eligible ps d k\<close> have b: "0 < b" and same: "findStep ps d k (c, b, v) = (c, b, v)"
      by (auto simp: findStep_def eligible_def Let_def)
    from b have "b \<noteq> INT_MIN" by (simp add: INT_MIN_def)
    with assms show ?thesis using same by (auto simp: less_Suc_eq)
  qed
qed

lemma findFold_inv:
  "fold (findStep ps d) [0..<k] (- 1, INT_MIN, []) = (c, b, v) \<Longrightarrow>
   (c = - 1 \<and> b = INT_MIN \<and> (\<forall>i<k. \<not> eligible ps d i)) \<or>
   (0 \<le> c \<and> nat c < k \<and> eligible ps d (nat c) \<and> b = balance (ps ! nat c) \<and>
    v = Min (upis (ps ! d) \<inter> upis (ps ! nat c)))"
proof (induction k arbitrary: c b v)
  case 0
  then show ?case by simp
next
  case (Suc k)
  obtain c0 b0 v0 where f: "fold (findStep ps d) [0..<k] (- 1, INT_MIN, []) = (c0, b0, v0)"
    by (cases "fold (findStep ps d) [0..<k] (- 1, INT_MIN, [])")
  with Suc.prems have "findStep ps d k (c0, b0, v0) = (c, b, v)" by simp
  from findStep_inv[OF Suc.IH[OF f] this] show ?case .
qed

lemma findSettlement_cases:
  assumes "findSettlement s d = (c, b, v)"
  shows "(c = - 1 \<and> (\<forall>i<nat (n_count s). \<not> eligible (people s) d i)) \<or>
         (0 \<le> c \<and> nat c < nat (n_count s) \<and> eligible (people s) d (nat c) \<and>
          b = balance (people s ! nat c) \<and>
          v = Min (upis (people s ! d) \<inter> upis (people s ! nat c)))"
proof -
  obtain c0 b0 v0 where
    f: "fold (findStep (people s) d) [0..<nat (n_count s)] (- 1, INT_MIN, []) = (c0, b0, v0)"
    by (cases "fold (findStep (people s) d) [0..<nat (n_count s)] (- 1, INT_MIN, [])")
  with assms have "c = c0" "0 \<le> c0 \<longrightarrow> b = b0" "v = v0"
    by (auto simp: findSettlement_def)
  with findFold_inv[OF f] show ?thesis by auto
qed

lemma upis_adjust [simp]: "map upis (adjust i a ps) = map upis ps"
  by (rule nth_equalityI) (simp_all add: nth_adjust)

lemma getMaxCreditor_fold_max:
  "0 < length ps \<Longrightarrow> k \<le> length ps \<Longrightarrow>
   (\<forall>i<max k 1. balance (ps ! i) \<le>
      balance (ps ! fold (\<lambda>i largest. if balance (ps ! largest) < balance (ps ! i) then i else largest)
                       [1..<k] 0))"
proof (induction k)
  case 0
  then show ?case by simp
next
  case (Suc k)
  show ?case
  proof (cases "k = 0")
    case True
    then show ?thesis by simp
  next
    case False
    then have k: "max k 1 = k" "max (Suc k) 1 = Suc k" "[1..<Suc k] = [1..<k] @ [k]" by auto
    from Suc have ih: "\<forall>i<k. balance (ps ! i) \<le>
      balance (ps ! fold (\<lambda>i largest. if balance (ps ! largest) < balance (ps ! i) then i else largest)
                       [1..<k] 0)"
      using k(1) by simp
    show ?thesis unfolding k(2,3) using ih by (auto simp: less_Suc_eq)
  qed
qed

lemma getMaxCreditor_max:
  assumes "i < length ps"
  shows "balance (ps ! i) \<le> balance (ps ! getMaxCreditor ps)"
proof -
  from assms have l: "0 < length ps" by (cases ps) simp_all
  then have "max (length ps) 1 = length ps" by (cases ps) simp_all
  with getMaxCreditor_fold_max[OF l le_refl] assms show ?thesis
    by (simp add: getMaxCreditor_def)
qed

lemma in_range_adjust:
  assumes "\<forall>p\<in>set ps. in_range (balance p)"
  shows "\<forall>p\<in>set (adjust i a ps). in_range (balance p)"
proof
  fix p assume "p \<in> set (adjust i a ps)"
  then have "p \<in> insert (adjustBalance a (ps ! i)) (set ps)"
    unfolding adjust_def using set_update_subset_insert by fastforce
  with assms show "in_range (balance p)" by auto
qed

subsection \<open>The state in which planning starts\<close>

lemma computeNetBalances_frame [simp]:
  "n_count (computeNetBalances s) = n_count s"
  "result (computeNetBalances s) = result s"
  "debtMatrix (computeNetBalances s) = debtMatrix s"
  "idx (computeNetBalances s) = idx s"
  by (simp_all add: computeNetBalances_def)

lemma upis_nth_cong:
  assumes "map upis ps' = map upis ps" and "i < length ps"
  shows "upis (ps' ! i) = upis (ps ! i)"
proof -
  from assms(1) have l: "length ps' = length ps" by (rule map_eq_imp_length_eq)
  have "upis (ps' ! i) = map upis ps' ! i" using assms(2) l by simp
  also have "\<dots> = map upis ps ! i" by (simp only: assms(1))
  also have "\<dots> = upis (ps ! i)" using assms(2) by simp
  finally show ?thesis .
qed

lemma treasurerUniversal_cong:
  assumes "map upis (people s') = map upis (people s)"
  shows "treasurerUniversal s' = treasurerUniversal s"
proof -
  from assms have l: "length (people s') = length (people s)" by (rule map_eq_imp_length_eq)
  have "\<And>i. i < length (people s) \<Longrightarrow>
          upis (people s' ! i) = upis (people s ! i) \<and> upis (people s' ! 0) = upis (people s ! 0)"
    using upis_nth_cong[OF assms] by (metis gr_implies_not0 not_gr_zero)
  then show ?thesis unfolding treasurerUniversal_def l by auto
qed

lemma readParticipants_treasurerUniversal:
  "readParticipants CashFlowMinimizer c = Inr (s, c') \<Longrightarrow> treasurerUniversal s"
  unfolding treasurerUniversal_def using readParticipants_universal by blast

lemma total_computeNetBalances_int32:
  assumes "length (people s) = nat (n_count s)"
  shows "int32 (sum_list (map balance (people (computeNetBalances s)))) =
         int32 (sum_list (map balance (people s)))"
proof -
  let ?n = "nat (n_count s)" and ?m = "debtMatrix s"
  have "sum_list (map balance (people (computeNetBalances s)))
        = (\<Sum>i<?n. balance (people (computeNetBalances s) ! i))"
    using assms by (simp add: sum_list_sum_nth atLeast0LessThan)
  also have "\<dots> = (\<Sum>i<?n. int32 (balance (people s ! i) + net ?m ?n i))"
    using assms by (intro sum.cong refl) (simp add: nth_people_computeNetBalances)
  finally have "int32 (sum_list (map balance (people (computeNetBalances s))))
        = int32 (\<Sum>i<?n. balance (people s ! i) + net ?m ?n i)"
    by (simp only: int32_sum)
  also have "\<dots> = int32 ((\<Sum>i<?n. balance (people s ! i)) + (\<Sum>i<?n. net ?m ?n i))"
    by (simp add: sum.distrib)
  also have "\<dots> = int32 ((\<Sum>i<?n. balance (people s ! i)) + int32 (\<Sum>i<?n. net ?m ?n i))"
    by simp
  also have "int32 (\<Sum>i<?n. net ?m ?n i) = int32 (\<Sum>i<?n. int32 (net ?m ?n i))"
    by (simp only: int32_sum)
  also have "\<dots> = int32 (\<Sum>i<?n. int32 (spec_balance ?m ?n i))"
    by (simp only: int32_net)
  also have "\<dots> = int32 (\<Sum>i<?n. spec_balance ?m ?n i)"
    by (simp only: int32_sum)
  also have "\<dots> = 0" by (simp add: sum_spec_balance)
  finally show ?thesis
    using assms by (simp add: sum_list_sum_nth atLeast0LessThan)
qed

lemma balance_computeNetBalances:
  assumes "length (people s) = nat (n_count s)" and "i < nat (n_count s)"
    and "balance (people s ! i) = 0"
  shows "balance (people (computeNetBalances s) ! i) =
           int32 (spec_balance (debtMatrix s) (nat (n_count s)) i)"
  using assms by (simp add: nth_people_computeNetBalances int32_net)

lemma total_computeNetBalances_exact:
  assumes "length (people s) = nat (n_count s)" and "\<forall>p\<in>set (people s). balance p = 0"
    and "\<forall>i<nat (n_count s). in_range (spec_balance (debtMatrix s) (nat (n_count s)) i)"
  shows "sum_list (map balance (people (computeNetBalances s))) = 0"
proof -
  let ?n = "nat (n_count s)" and ?m = "debtMatrix s"
  have "sum_list (map balance (people (computeNetBalances s)))
        = (\<Sum>i<?n. balance (people (computeNetBalances s) ! i))"
    using assms(1) by (simp add: sum_list_sum_nth atLeast0LessThan)
  also have "\<dots> = (\<Sum>i<?n. spec_balance ?m ?n i)"
  proof (intro sum.cong refl)
    fix i assume "i \<in> {..<?n}"
    then have i: "i < ?n" by simp
    with assms(1,2) have "balance (people s ! i) = 0" by simp
    from balance_computeNetBalances[OF assms(1) i this] assms(3) i
    show "balance (people (computeNetBalances s) ! i) = spec_balance ?m ?n i"
      by (simp add: int32_id)
  qed
  finally show ?thesis by (simp add: sum_spec_balance)
qed

lemma netted_shape:
  assumes "netted toks = Inr s"
  shows "2 \<le> n_count s" and "length (people s) = nat (n_count s)" and "result s = []"
    and "int32 (totalBalance s) = 0" and "treasurerUniversal s"
    and "(\<forall>i<nat (n_count s). in_range (spec_balance (debtMatrix s) (nat (n_count s)) i)) \<Longrightarrow>
         totalBalance s = 0"
proof -
  from assms obtain s1 c1 s2 c2 where
    p: "readParticipants CashFlowMinimizer (toks, False) = Inr (s1, c1)"
    and t: "readTransactions s1 c1 = Inr (s2, c2)" and s: "s = computeNetBalances s2"
    by (auto simp: netted_def split: sum.splits)
  note sh = readParticipants_shape[OF p] and fr = readTransactions_frame[OF t]
  have l2: "length (people s2) = nat (n_count s2)" using sh(2) fr by simp
  show "2 \<le> n_count s" using sh(1) fr by (simp add: s)
  show "length (people s) = nat (n_count s)" using l2 by (simp add: s)
  show "result s = []" using sh(5) fr by (simp add: s)
  have z: "\<forall>p\<in>set (people s2). balance p = 0" using sh(4) fr by simp
  then have "map balance (people s2) = replicate (length (people s2)) 0"
    by (simp add: all_balance_zero)
  then have "sum_list (map balance (people s2)) = 0" by (simp add: sum_list_replicate)
  then show "int32 (totalBalance s) = 0"
    by (simp add: totalBalance_def balances_def s total_computeNetBalances_int32[OF l2])
  have u: "map upis (people s) = map upis (people s1)"
  proof (rule nth_equalityI)
    show "length (map upis (people s)) = length (map upis (people s1))"
      using fr by (simp add: s)
  next
    fix i assume "i < length (map upis (people s))"
    then have "i < nat (n_count s2)" using l2 by (simp add: s)
    then show "map upis (people s) ! i = map upis (people s1) ! i"
      using l2 fr by (simp add: s nth_people_computeNetBalances)
  qed
  show "treasurerUniversal s"
    using readParticipants_treasurerUniversal[OF p] treasurerUniversal_cong[OF u] by simp
  assume "\<forall>i<nat (n_count s). in_range (spec_balance (debtMatrix s) (nat (n_count s)) i)"
  then have "\<forall>i<nat (n_count s2). in_range (spec_balance (debtMatrix s2) (nat (n_count s2)) i)"
    by (simp add: s)
  from total_computeNetBalances_exact[OF l2 z this]
  show "totalBalance s = 0" by (simp add: totalBalance_def balances_def s)
qed

subsection \<open>The sum of the balances in 32 bits\<close>

lemma int32_eq_diff: "int32 x = int32 (y + a) \<Longrightarrow> int32 (x - a) = int32 y"
proof -
  assume "int32 x = int32 (y + a)"
  then have "int32 (int32 x - a) = int32 (int32 (y + a) - a)" by simp
  then show ?thesis by simp
qed

lemma total32_directTransfer:
  assumes "d < length (people s)" and "nat c < length (people s)"
  shows "int32 (totalBalance (directTransfer d c t v s)) = int32 (totalBalance s)"
proof -
  let ?X = "adjust d t (people s)"
  have x: "int32 (sum_list (map balance ?X)) = int32 (sum_list (map balance (people s)) + t)"
    using assms(1) by (rule sum_balance_adjust_int32)
  have "int32 (sum_list (map balance (adjust (nat c) (int32 (- t)) ?X))) =
        int32 (sum_list (map balance ?X) + int32 (- t))"
    using assms(2) by (intro sum_balance_adjust_int32) simp
  also have "\<dots> = int32 (sum_list (map balance ?X) - t)" by simp
  also have "\<dots> = int32 (sum_list (map balance (people s)))" by (rule int32_eq_diff[OF x])
  finally show ?thesis by (simp add: totalBalance_def balances_def directTransfer_def)
qed

lemma people_debtorToTreasurer:
  "debtorToTreasurer d amt s = Inr s' \<Longrightarrow>
   people s' = adjust d amt (adjust 0 amt (people s)) \<and> n_count s' = n_count s"
  by (auto simp: debtorToTreasurer_def Let_def split: sum.splits)

lemma people_treasurerToCreditor:
  "treasurerToCreditor s = Inr s' \<Longrightarrow>
   people s' = adjust 0 (int32 (- balance (people s ! 0)))
                 (adjust (getMaxCreditor (people s)) (int32 (- balance (people s ! 0))) (people s)) \<and>
   n_count s' = n_count s"
  by (auto simp: treasurerToCreditor_def Let_def split: sum.splits)

lemma total32_debtorToTreasurer:
  assumes "debtorToTreasurer d amt s = Inr s'" and "d < length (people s)"
  shows "int32 (totalBalance s') = int32 (totalBalance s + 2 * amt)"
proof -
  from assms(2) have l: "0 < length (people s)" by (cases "people s") simp_all
  let ?X = "adjust 0 amt (people s)"
  have x: "int32 (sum_list (map balance ?X)) = int32 (sum_list (map balance (people s)) + amt)"
    using l by (rule sum_balance_adjust_int32)
  have "int32 (sum_list (map balance (adjust d amt ?X))) = int32 (sum_list (map balance ?X) + amt)"
    using assms(2) by (intro sum_balance_adjust_int32) simp
  also have "\<dots> = int32 (int32 (sum_list (map balance ?X)) + amt)" by simp
  also have "\<dots> = int32 (sum_list (map balance (people s)) + amt + amt)" by (simp add: x)
  finally show ?thesis
    using people_debtorToTreasurer[OF assms(1)]
    by (simp add: totalBalance_def balances_def algebra_simps)
qed

lemma total32_treasurerToCreditor:
  assumes "treasurerToCreditor s = Inr s'" and "people s \<noteq> []"
  shows "int32 (totalBalance s') = int32 (totalBalance s - 2 * balance (people s ! 0))"
proof -
  from assms(2) have l: "0 < length (people s)" "getMaxCreditor (people s) < length (people s)"
    by (simp_all add: getMaxCreditor_less)
  let ?t = "balance (people s ! 0)"
  let ?X = "adjust (getMaxCreditor (people s)) (int32 (- ?t)) (people s)"
  have x: "int32 (sum_list (map balance ?X)) = int32 (sum_list (map balance (people s)) - ?t)"
    using sum_balance_adjust_int32[OF l(2), of "int32 (- ?t)"] by simp
  have "int32 (sum_list (map balance (adjust 0 (int32 (- ?t)) ?X))) =
        int32 (sum_list (map balance ?X) + int32 (- ?t))"
    using l(1) by (intro sum_balance_adjust_int32) simp
  also have "\<dots> = int32 (int32 (sum_list (map balance ?X)) - ?t)" by simp
  also have "\<dots> = int32 (sum_list (map balance (people s)) - ?t - ?t)" by (simp add: x)
  finally show ?thesis
    using people_treasurerToCreditor[OF assms(1)]
    by (simp add: totalBalance_def balances_def algebra_simps)
qed

lemma treasurer_after_debtorToTreasurer:
  assumes "debtorToTreasurer d (int32 (- balance (people s ! d))) s = Inr s'"
    and "d < length (people s)" and "balance (people s ! 0) = 0"
  shows "balance (people s' ! 0) = int32 (- balance (people s ! d))" and "people s' \<noteq> []"
proof -
  from assms(2) have l: "0 < length (people s)" by (cases "people s") simp_all
  note p = people_debtorToTreasurer[OF assms(1), THEN conjunct1]
  show "balance (people s' ! 0) = int32 (- balance (people s ! d))"
    using l assms(2,3) by (cases "d = 0") (simp_all add: p nth_adjust)
  show "people s' \<noteq> []" using l by (auto simp: p dest: arg_cong[where f = length])
qed

lemma total32_settleRound:
  assumes "length (people s) = nat (n_count s)" and "people s \<noteq> []"
    and "settleRound s = Inr s'"
    and "0 \<le> fst (findSettlement s (getMaxDebtor (people s))) \<or> balance (people s ! 0) = 0"
  shows "int32 (totalBalance s') = int32 (totalBalance s)"
proof -
  let ?d = "getMaxDebtor (people s)"
  let ?amt = "int32 (- balance (people s ! ?d))"
  have d: "?d < length (people s)" using assms(2) by (rule getMaxDebtor_less)
  obtain c b v where f: "findSettlement s ?d = (c, b, v)" by (cases "findSettlement s ?d")
  show ?thesis
  proof (cases "0 \<le> c")
    case True
    with findSettlement_cases[OF f] have "nat c < length (people s)" using assms(1) by auto
    moreover from True f assms(3)
    have "s' = directTransfer ?d c (min ?amt b) v s"
      by (simp add: settleRound_def Let_def)
    ultimately show ?thesis using d by (simp add: total32_directTransfer)
  next
    case False
    with assms(4) f have z: "balance (people s ! 0) = 0" by simp
    from False f assms(3) obtain s1 where
      s1: "debtorToTreasurer ?d ?amt s = Inr s1"
      and s': "treasurerToCreditor s1 = Inr s'"
      by (auto simp: settleRound_def Let_def split: sum.splits)
    note t = treasurer_after_debtorToTreasurer[OF s1 d z]
    have "int32 (totalBalance s') = int32 (totalBalance s1 - 2 * ?amt)"
      using total32_treasurerToCreditor[OF s' t(2)] by (simp add: t(1))
    also have "\<dots> = int32 (totalBalance s)"
      by (rule int32_eq_diff[OF total32_debtorToTreasurer[OF s1 d]])
    finally show ?thesis .
  qed
qed

subsection \<open>The sum of the balances over the integers\<close>

lemma in_range_nth: "\<forall>p\<in>set ps. in_range (balance p) \<Longrightarrow> i < length ps \<Longrightarrow> in_range (balance (ps ! i))"
  by simp

lemma in_range_neg: "INT_MIN < x \<Longrightarrow> x \<le> INT_MAX \<Longrightarrow> in_range (- x)"
  by (simp add: in_range_def INT_MIN_def INT_MAX_def)

lemma in_range_between: "in_range lo \<Longrightarrow> in_range hi \<Longrightarrow> lo \<le> x \<Longrightarrow> x \<le> hi \<Longrightarrow> in_range x"
  by (simp add: in_range_def)

lemma in_range_0 [simp]: "in_range 0"
  by (simp add: in_range_def INT_MIN_def INT_MAX_def)

lemma total_directTransfer_exact:
  assumes d: "d < length (people s)" and c: "nat c < length (people s)" and ne: "nat c \<noteq> d"
    and r1: "in_range (balance (people s ! d) + t)" and r2: "in_range (- t)"
    and r3: "in_range (balance (people s ! nat c) - t)"
  shows "totalBalance (directTransfer d c t v s) = totalBalance s"
proof -
  let ?X = "adjust d t (people s)"
  have x: "sum_list (map balance ?X) = sum_list (map balance (people s)) + t"
    using d r1 by (rule sum_balance_adjust_exact)
  have n: "?X ! nat c = people s ! nat c" using ne by (simp add: nth_adjust)
  have "sum_list (map balance (adjust (nat c) (- t) ?X)) = sum_list (map balance ?X) + (- t)"
    using c r3 by (intro sum_balance_adjust_exact) (simp_all add: n)
  with x show ?thesis
    by (simp add: totalBalance_def balances_def directTransfer_def int32_id[OF r2])
qed

lemma total_debtorToTreasurer_exact:
  assumes s': "debtorToTreasurer d amt s = Inr s'" and d: "d < length (people s)" and ne: "d \<noteq> 0"
    and r1: "in_range (balance (people s ! 0) + amt)" and r2: "in_range (balance (people s ! d) + amt)"
  shows "totalBalance s' = totalBalance s + 2 * amt"
proof -
  from d have l: "0 < length (people s)" by (cases "people s") simp_all
  let ?X = "adjust 0 amt (people s)"
  have x: "sum_list (map balance ?X) = sum_list (map balance (people s)) + amt"
    using l r1 by (rule sum_balance_adjust_exact)
  have n: "?X ! d = people s ! d" using ne by (simp add: nth_adjust)
  have "sum_list (map balance (adjust d amt ?X)) = sum_list (map balance ?X) + amt"
    using d r2 by (intro sum_balance_adjust_exact) (simp_all add: n)
  with x show ?thesis
    using people_debtorToTreasurer[OF s'] by (simp add: totalBalance_def balances_def)
qed

lemma total_treasurerToCreditor_exact:
  assumes s': "treasurerToCreditor s = Inr s'" and ne: "people s \<noteq> []"
    and rng: "\<forall>p\<in>set (people s). in_range (balance p)" and pos: "0 \<le> balance (people s ! 0)"
  shows "totalBalance s' = totalBalance s - 2 * balance (people s ! 0)"
proof -
  let ?fc = "getMaxCreditor (people s)" and ?t = "balance (people s ! 0)"
  from ne have l: "0 < length (people s)" "?fc < length (people s)"
    by (simp_all add: getMaxCreditor_less)
  have rt: "in_range ?t" and rf: "in_range (balance (people s ! ?fc))"
    using rng l by simp_all
  have ge: "?t \<le> balance (people s ! ?fc)" using l(1) by (rule getMaxCreditor_max)
  have rn: "in_range (- ?t)"
    using rt pos by (simp add: in_range_def INT_MIN_def INT_MAX_def)
  let ?X = "adjust ?fc (- ?t) (people s)"
  have "in_range (balance (people s ! ?fc) + (- ?t))"
    using rf ge pos by (simp add: in_range_def INT_MIN_def INT_MAX_def)
  then have x: "sum_list (map balance ?X) = sum_list (map balance (people s)) + (- ?t)"
    using l(2) by (intro sum_balance_adjust_exact)
  have "balance (?X ! 0) = (if ?fc = 0 then 0 else ?t)"
    using l by (simp add: nth_adjust)
  then have "in_range (balance (?X ! 0) + (- ?t))"
    using rn by (simp split: if_splits)
  then have "sum_list (map balance (adjust 0 (- ?t) ?X)) = sum_list (map balance ?X) + (- ?t)"
    using l(1) by (intro sum_balance_adjust_exact) simp_all
  with x show ?thesis
    using people_treasurerToCreditor[OF s']
    by (simp add: totalBalance_def balances_def int32_id[OF rn])
qed

lemma total_settleRound_exact:
  assumes sh: "length (people s) = nat (n_count s)" and ne: "people s \<noteq> []"
    and r: "settleRound s = Inr s'"
    and br: "0 \<le> fst (findSettlement s (getMaxDebtor (people s))) \<or> balance (people s ! 0) = 0"
    and rng: "\<forall>p\<in>set (people s). in_range (balance p)"
    and lo: "INT_MIN < balance (people s ! getMaxDebtor (people s))"
    and hi: "balance (people s ! getMaxDebtor (people s)) \<le> 0"
  shows "totalBalance s' = totalBalance s"
proof -
  let ?d = "getMaxDebtor (people s)"
  let ?bd = "balance (people s ! ?d)"
  have d: "?d < length (people s)" using ne by (rule getMaxDebtor_less)
  have "in_range (- ?bd)" using lo hi by (simp add: in_range_def INT_MIN_def INT_MAX_def)
  then have amt: "int32 (- ?bd) = - ?bd" by (rule int32_id)
  have rd: "in_range ?bd" using rng d by simp
  obtain c b v where f: "findSettlement s ?d = (c, b, v)" by (cases "findSettlement s ?d")
  show ?thesis
  proof (cases "0 \<le> c")
    case True
    with findSettlement_cases[OF f] have c: "nat c < length (people s)"
      "0 < balance (people s ! nat c)" "b = balance (people s ! nat c)"
      using sh by (auto simp: eligible_def)
    let ?bc = "balance (people s ! nat c)"
    define t where "t = min (- ?bd) ?bc"
    have rc: "in_range ?bc" using rng c(1) by simp
    have cd: "nat c \<noteq> ?d" using c(2) hi by auto
    have s': "s' = directTransfer ?d c t v s"
      using True f r c(3) by (simp add: settleRound_def Let_def amt t_def)
    have t: "0 \<le> t" "t \<le> ?bc" "t \<le> - ?bd" using c(2) hi by (simp_all add: t_def)
    have r1: "in_range (?bd + t)"
      using rd t hi unfolding in_range_def INT_MIN_def INT_MAX_def by linarith
    have r2: "in_range (- t)"
      using rc t unfolding in_range_def INT_MIN_def INT_MAX_def by linarith
    have r3: "in_range (?bc - t)"
      using rc t unfolding in_range_def INT_MIN_def INT_MAX_def by linarith
    show ?thesis unfolding s' by (rule total_directTransfer_exact[OF d c(1) cd r1 r2 r3])
  next
    case False
    with br f have z: "balance (people s ! 0) = 0" by simp
    from False f r obtain s1 where
      s1: "debtorToTreasurer ?d (- ?bd) s = Inr s1"
      and s': "treasurerToCreditor s1 = Inr s'"
      by (auto simp: settleRound_def Let_def amt split: sum.splits)
    note p1 = people_debtorToTreasurer[OF s1, THEN conjunct1]
    have t: "balance (people s1 ! 0) = - ?bd" "people s1 \<noteq> []"
      using treasurer_after_debtorToTreasurer[of ?d s s1] s1 d z by (simp_all add: amt)
    have rng1: "\<forall>p\<in>set (people s1). in_range (balance p)"
      unfolding p1 by (intro in_range_adjust rng)
    have tot1: "totalBalance s1 = totalBalance s + 2 * (- ?bd)"
    proof (cases "?d = 0")
      case False
      show ?thesis
        by (rule total_debtorToTreasurer_exact[OF s1 d False])
           (use z lo hi in \<open>simp_all add: in_range_def INT_MIN_def INT_MAX_def\<close>)
    next
      case True
      with z have b0: "?bd = 0" by simp
      from ne have l: "0 < length (people s)" by simp
      let ?X = "adjust 0 0 (people s)"
      have x: "sum_list (map balance ?X) = sum_list (map balance (people s)) + 0"
        using l by (intro sum_balance_adjust_exact) (simp_all add: z)
      have "balance (?X ! 0) = 0" using l z by (simp add: nth_adjust)
      then have "sum_list (map balance (adjust 0 0 ?X)) = sum_list (map balance ?X) + 0"
        using l by (intro sum_balance_adjust_exact) simp_all
      with x show ?thesis
        using p1 True b0 by (simp add: totalBalance_def balances_def)
    qed
    have "0 \<le> balance (people s1 ! 0)" using t(1) hi by simp
    from total_treasurerToCreditor_exact[OF s' t(2) rng1 this] tot1 t(1)
    show ?thesis by simp
  qed
qed

subsection \<open>Rounds of the planning loop\<close>

lemma upis_fold_adjust [simp]: "map upis (fold (\<lambda>i. adjust i (g i)) js ps) = map upis ps"
  by (induction js arbitrary: ps) simp_all

lemma upis_computeNetBalances [simp]:
  "map upis (people (computeNetBalances s)) = map upis (people s)"
  by (simp add: people_computeNetBalances)

lemma upis_directTransfer [simp]:
  "map upis (people (directTransfer d c t v s)) = map upis (people s)"
  by (simp add: directTransfer_def)

lemma upis_debtorToTreasurer:
  "debtorToTreasurer d amt s = Inr s' \<Longrightarrow> map upis (people s') = map upis (people s)"
  by (auto simp: debtorToTreasurer_def Let_def split: sum.splits)

lemma upis_treasurerToCreditor:
  "treasurerToCreditor s = Inr s' \<Longrightarrow> map upis (people s') = map upis (people s)"
  by (auto simp: treasurerToCreditor_def Let_def split: sum.splits)

lemma upis_settleRound:
  "settleRound s = Inr s' \<Longrightarrow> map upis (people s') = map upis (people s)"
  by (auto simp: settleRound_def Let_def split: prod.splits if_splits sum.splits
           dest!: upis_debtorToTreasurer upis_treasurerToCreditor)

lemma upis_rounds:
  "rounds k s = Some (Inr s') \<Longrightarrow> map upis (people s') = map upis (people s)"
proof (induction k arbitrary: s)
  case 0
  then show ?case by simp
next
  case (Suc k)
  then obtain s1 where "settleRound s = Inr s1" "rounds k s1 = Some (Inr s')"
    by (auto split: if_splits sum.splits)
  with Suc.IH[of s1] upis_settleRound[of s s1] show ?case by simp
qed

lemma upis_settleLoop_aux:
  assumes "settleLoop s = Some y"
  shows "\<forall>s'. y = Inr s' \<longrightarrow> map upis (people s') = map upis (people s)"
proof (rule settleLoop.raw_induct[where P = "\<lambda>s y. \<forall>s'. y = Inr s' \<longrightarrow> map upis (people s') = map upis (people s)"])
  show "settleLoop s = Some y" by fact
next
  fix f :: "cfm \<Rightarrow> (failure + cfm) option" and s y
  assume ih: "\<And>x y. f x = Some y \<Longrightarrow> \<forall>s'. y = Inr s' \<longrightarrow> map upis (people s') = map upis (people x)"
    and eq: "(if settledCount s < n_count s
              then case settleRound s of Inl e \<Rightarrow> Some (Inl e) | Inr s' \<Rightarrow> f s'
              else Some (Inr s)) = Some y"
  show "\<forall>s'. y = Inr s' \<longrightarrow> map upis (people s') = map upis (people s)"
  proof (cases "settledCount s < n_count s")
    case False
    with eq show ?thesis by auto
  next
    case True
    show ?thesis
    proof (cases "settleRound s")
      case (Inl e)
      with True eq show ?thesis by auto
    next
      case (Inr s1)
      with True eq have "f s1 = Some y" by simp
      from ih[OF this] upis_settleRound[OF Inr] show ?thesis by simp
    qed
  qed
qed

lemma upis_settleLoop:
  "settleLoop s = Some (Inr s') \<Longrightarrow> map upis (people s') = map upis (people s)"
  using upis_settleLoop_aux by blast

lemma settleLoop_step:
  "settledCount s < n_count s \<Longrightarrow> settleRound s = Inr s' \<Longrightarrow> settleLoop s = settleLoop s'"
  by (subst settleLoop.simps) simp

lemma settleLoop_rounds: "rounds k s = Some (Inr s') \<Longrightarrow> settleLoop s = settleLoop s'"
proof (induction k arbitrary: s)
  case 0
  then show ?case by simp
next
  case (Suc k)
  then obtain s1 where c: "settledCount s < n_count s" and r: "settleRound s = Inr s1"
    and k: "rounds k s1 = Some (Inr s')"
    by (auto split: if_splits sum.splits)
  have "settleLoop s = settleLoop s1" using c r by (rule settleLoop_step)
  with Suc.IH[OF k] show ?case by simp
qed

lemma settleRound_cong:
  assumes "people x = people s" and "n_count x = n_count s"
  shows "map_sum id people (settleRound x) = map_sum id people (settleRound s)"
    and "map_sum id n_count (settleRound x) = map_sum id n_count (settleRound s)"
proof -
  have f: "findSettlement x = findSettlement s"
    using assms by (intro ext) (simp add: findSettlement_def)
  show "map_sum id people (settleRound x) = map_sum id people (settleRound s)"
    using assms
    by (simp add: settleRound_def f Let_def directTransfer_def debtorToTreasurer_def
          treasurerToCreditor_def split: prod.splits sum.splits)
  show "map_sum id n_count (settleRound x) = map_sum id n_count (settleRound s)"
    using assms
    by (simp add: settleRound_def f Let_def directTransfer_def debtorToTreasurer_def
          treasurerToCreditor_def split: prod.splits sum.splits)
qed

lemma settleLoop_stuck_aux:
  assumes stuck: "settledCount s < n_count s" "settleRound s = Inr s'"
    "people s' = people s" "n_count s' = n_count s"
    and run: "settleLoop x = Some y"
  shows "\<not> (people x = people s \<and> n_count x = n_count s)"
proof (rule settleLoop.raw_induct[where P = "\<lambda>x y. \<not> (people x = people s \<and> n_count x = n_count s)"])
  show "settleLoop x = Some y" by fact
next
  fix f :: "cfm \<Rightarrow> (failure + cfm) option" and x y
  assume ih: "\<And>x y. f x = Some y \<Longrightarrow> \<not> (people x = people s \<and> n_count x = n_count s)"
    and eq: "(if settledCount x < n_count x
              then case settleRound x of Inl e \<Rightarrow> Some (Inl e) | Inr s' \<Rightarrow> f s'
              else Some (Inr x)) = Some y"
  show "\<not> (people x = people s \<and> n_count x = n_count s)"
  proof
    assume same: "people x = people s \<and> n_count x = n_count s"
    then have c: "settledCount x < n_count x" using stuck(1) by (simp add: settledCount_def)
    from settleRound_cong[of x s] same stuck(2) obtain x' where
      x': "settleRound x = Inr x'" "people x' = people s'" "n_count x' = n_count s'"
      by (cases "settleRound x") auto
    from eq c x'(1) have "f x' = Some y" by simp
    from ih[OF this] x'(2,3) stuck(3,4) show False by simp
  qed
qed

lemma settleLoop_stuck:
  assumes "settledCount s < n_count s" and "settleRound s = Inr s'"
    and "people s' = people s" and "n_count s' = n_count s"
  shows "settleLoop s = None"
proof (cases "settleLoop s")
  case None
  then show ?thesis .
next
  case (Some y)
  from settleLoop_stuck_aux[OF assms Some] show ?thesis by simp
qed

subsection \<open>Runs that do not return\<close>

lemma run_not_returning:
  assumes "netted toks = Inr s0"
    and "settledCount s0 < n_count s0" and "settleRound s0 = Inr s1"
    and "settledCount s1 < n_count s1" and "settleRound s1 = Inr s2"
    and "people s2 = people s1" and "n_count s2 = n_count s1"
  shows "run toks = None"
proof -
  have "settleLoop s0 = settleLoop s1" using assms(2,3) by (rule settleLoop_step)
  also have "\<dots> = None" by (rule settleLoop_stuck[OF assms(4-7)])
  finally show ?thesis by (simp add: run_def assms(1) settleDebts_def)
qed

lemma Inr_projr_the: "x \<noteq> None \<Longrightarrow> \<not> isl (the x) \<Longrightarrow> x = Some (Inr (projr (the x)))"
  by (cases x) auto

section \<open>The claims\<close>

subsection \<open>C1: termination of the planning loop\<close>

text \<open>
  C1 states that for every accepted input the planning loop terminates with every
  balance at zero, within as many rounds as there are participants. The code does not
  do so on the accepted input \<open>scenario_treasurer_owes\<close> (\<open>T\<close> owes \<open>P2\<close> 1, \<open>P1\<close> owes
  \<open>P2\<close> 7, no UPI shared by \<open>P1\<close> and \<open>P2\<close>): the net balances are \<open>[-1, -7, 8]\<close>, the first
  round is a fallback round that leaves \<open>[0, 0, 2]\<close>, the second round leaves the balances
  as they are, and from there on no round changes them: \<open>run\<close> does not return.
\<close>

theorem C1_loop_does_not_return:
  "\<not> isl (netted scenario_treasurer_owes) \<and>
   run scenario_treasurer_owes = None \<and>
   balances (projr (netted scenario_treasurer_owes)) = [- 1, - 7, 8] \<and>
   map_option (map_sum id balances) (rounds (Suc 0) (projr (netted scenario_treasurer_owes))) =
     Some (Inr [0, 0, 2]) \<and>
   map_option (map_sum id balances) (rounds (Suc (Suc 0)) (projr (netted scenario_treasurer_owes))) =
     Some (Inr [0, 0, 2])"
proof -
  define s0 where "s0 = projr (netted scenario_treasurer_owes)"
  define s1 where "s1 = projr (settleRound s0)"
  define s2 where "s2 = projr (settleRound s1)"
  have i: "\<not> isl (netted scenario_treasurer_owes)" by code_simp
  then have n: "netted scenario_treasurer_owes = Inr s0" by (simp add: s0_def)
  have c0: "settledCount s0 < n_count s0" unfolding s0_def by code_simp
  have "\<not> isl (settleRound s0)" unfolding s0_def by code_simp
  then have r0: "settleRound s0 = Inr s1" by (simp add: s1_def)
  have c1: "settledCount s1 < n_count s1" unfolding s1_def s0_def by code_simp
  have "\<not> isl (settleRound s1)" unfolding s1_def s0_def by code_simp
  then have r1: "settleRound s1 = Inr s2" by (simp add: s2_def)
  have p: "people s2 = people s1" unfolding s2_def s1_def s0_def by code_simp
  have m: "n_count s2 = n_count s1" unfolding s2_def s1_def s0_def by code_simp
  have "run scenario_treasurer_owes = None" by (rule run_not_returning[OF n c0 r0 c1 r1 p m])
  moreover have "balances (projr (netted scenario_treasurer_owes)) = [- 1, - 7, 8]"
    by code_simp
  moreover have "map_option (map_sum id balances) (rounds (Suc 0) (projr (netted scenario_treasurer_owes))) =
     Some (Inr [0, 0, 2])" by code_simp
  moreover have "map_option (map_sum id balances) (rounds (Suc (Suc 0)) (projr (netted scenario_treasurer_owes))) =
     Some (Inr [0, 0, 2])" by code_simp
  ultimately show ?thesis using i by simp
qed

subsection \<open>C2: the sum of the balances\<close>

text \<open>
  C2 as amended. In the 32-bit arithmetic of the code (\<open>int32\<close> of the sum, that is, the sum
  modulo \<open>2^32\<close>): for every accepted input the sum of all balances is zero immediately
  after the net balances are computed; a round that makes a direct transfer leaves the sum
  as it was; the first transfer of a fallback round (debtor to Treasurer) raises the sum by
  twice its amount; and a round that starts with the balance of the Treasurer at zero ends
  with the sum as it was at its start. Each of the four holds over the integers, exactly,
  when nothing leaves the range of \<open>int\<close>: after netting when every net amount
  \<open>\<Sum>j. debt[j][i] - \<Sum>j. debt[i][j]\<close> is in range; for a round when every balance is in range
  and the balance \<open>b\<close> of the max debtor has \<open>INT_MIN < b \<le> 0\<close>; for the first fallback
  transfer when the two additions stay in range.
\<close>

theorem C2_sum_of_balances:
  "(netted toks = Inr st \<longrightarrow>
      int32 (totalBalance st) = 0 \<and>
      ((\<forall>i<nat (n_count st). in_range (spec_balance (debtMatrix st) (nat (n_count st)) i)) \<longrightarrow>
       totalBalance st = 0)) \<and>
   (length (people sa) = nat (n_count sa) \<and> people sa \<noteq> [] \<and> settleRound sa = Inr sa' \<and>
      0 \<le> fst (findSettlement sa (getMaxDebtor (people sa))) \<longrightarrow>
      int32 (totalBalance sa') = int32 (totalBalance sa) \<and>
      ((\<forall>p\<in>set (people sa). in_range (balance p)) \<and>
       INT_MIN < balance (people sa ! getMaxDebtor (people sa)) \<and>
       balance (people sa ! getMaxDebtor (people sa)) \<le> 0 \<longrightarrow>
       totalBalance sa' = totalBalance sa)) \<and>
   (d < length (people sb) \<and> debtorToTreasurer d amt sb = Inr sb' \<longrightarrow>
      int32 (totalBalance sb') = int32 (totalBalance sb + 2 * amt) \<and>
      (d \<noteq> 0 \<and> in_range (balance (people sb ! 0) + amt) \<and>
       in_range (balance (people sb ! d) + amt) \<longrightarrow>
       totalBalance sb' = totalBalance sb + 2 * amt)) \<and>
   (length (people sc) = nat (n_count sc) \<and> people sc \<noteq> [] \<and> settleRound sc = Inr sc' \<and>
      balance (people sc ! 0) = 0 \<longrightarrow>
      int32 (totalBalance sc') = int32 (totalBalance sc) \<and>
      ((\<forall>p\<in>set (people sc). in_range (balance p)) \<and>
       INT_MIN < balance (people sc ! getMaxDebtor (people sc)) \<and>
       balance (people sc ! getMaxDebtor (people sc)) \<le> 0 \<longrightarrow>
       totalBalance sc' = totalBalance sc))"
proof (intro conjI impI)
  assume "netted toks = Inr st"
  then show "int32 (totalBalance st) = 0" by (rule netted_shape(4))
next
  assume "netted toks = Inr st"
    and "\<forall>i<nat (n_count st). in_range (spec_balance (debtMatrix st) (nat (n_count st)) i)"
  then show "totalBalance st = 0" by (rule netted_shape(6))
next
  assume "length (people sa) = nat (n_count sa) \<and> people sa \<noteq> [] \<and> settleRound sa = Inr sa' \<and>
      0 \<le> fst (findSettlement sa (getMaxDebtor (people sa)))"
  then show "int32 (totalBalance sa') = int32 (totalBalance sa)"
    using total32_settleRound[of sa sa'] by blast
next
  assume "length (people sa) = nat (n_count sa) \<and> people sa \<noteq> [] \<and> settleRound sa = Inr sa' \<and>
      0 \<le> fst (findSettlement sa (getMaxDebtor (people sa)))"
    and "(\<forall>p\<in>set (people sa). in_range (balance p)) \<and>
       INT_MIN < balance (people sa ! getMaxDebtor (people sa)) \<and>
       balance (people sa ! getMaxDebtor (people sa)) \<le> 0"
  then show "totalBalance sa' = totalBalance sa"
    using total_settleRound_exact[of sa sa'] by blast
next
  assume "d < length (people sb) \<and> debtorToTreasurer d amt sb = Inr sb'"
  then show "int32 (totalBalance sb') = int32 (totalBalance sb + 2 * amt)"
    using total32_debtorToTreasurer[of d amt sb sb'] by blast
next
  assume "d < length (people sb) \<and> debtorToTreasurer d amt sb = Inr sb'"
    and "d \<noteq> 0 \<and> in_range (balance (people sb ! 0) + amt) \<and>
       in_range (balance (people sb ! d) + amt)"
  then show "totalBalance sb' = totalBalance sb + 2 * amt"
    using total_debtorToTreasurer_exact[of d amt sb sb'] by blast
next
  assume "length (people sc) = nat (n_count sc) \<and> people sc \<noteq> [] \<and> settleRound sc = Inr sc' \<and>
      balance (people sc ! 0) = 0"
  then show "int32 (totalBalance sc') = int32 (totalBalance sc)"
    using total32_settleRound[of sc sc'] by blast
next
  assume "length (people sc) = nat (n_count sc) \<and> people sc \<noteq> [] \<and> settleRound sc = Inr sc' \<and>
      balance (people sc ! 0) = 0"
    and "(\<forall>p\<in>set (people sc). in_range (balance p)) \<and>
       INT_MIN < balance (people sc ! getMaxDebtor (people sc)) \<and>
       balance (people sc ! getMaxDebtor (people sc)) \<le> 0"
  then show "totalBalance sc' = totalBalance sc"
    using total_settleRound_exact[of sc sc'] by blast
qed

text \<open>
  C2, as stated, fails in two places. After the first transfer of a fallback round: in the
  third scenario of the specification the net balances are \<open>[0, -7, 7]\<close>, the max debtor
  is participant 1, no direct creditor is found, and after the transfer debtor to Treasurer
  the balances are \<open>[7, 0, 7]\<close>, of sum 14. And after netting, when a balance leaves the range
  of \<open>int\<close>: with two debts of 2147483647 to the Treasurer the balances are
  \<open>[-2, -2147483647, -2147483647]\<close>, of sum \<open>- 4294967296\<close>.
\<close>

theorem C2_counterexample:
  "\<not> isl (netted scenario_fallback) \<and>
   balances (projr (netted scenario_fallback)) = [0, - 7, 7] \<and>
   getMaxDebtor (people (projr (netted scenario_fallback))) = 1 \<and>
   fst (findSettlement (projr (netted scenario_fallback)) 1) = - 1 \<and>
   map_sum id balances (debtorToTreasurer 1 7 (projr (netted scenario_fallback))) = Inr [7, 0, 7] \<and>
   map_sum id totalBalance (debtorToTreasurer 1 7 (projr (netted scenario_fallback))) = Inr 14 \<and>
   \<not> isl (netted scenario_overflow) \<and>
   balances (projr (netted scenario_overflow)) = [- 2, - 2147483647, - 2147483647] \<and>
   totalBalance (projr (netted scenario_overflow)) = - 4294967296"
  by code_simp

text \<open>
  The amended C2 on the scenarios, where nothing leaves the range of \<open>int\<close>: the sum is
  zero after netting in the third scenario; the direct round of the first scenario keeps
  the sum; the first fallback transfer of the third scenario (participant 1 pays 7) raises
  it by 14; the whole fallback round, started with the Treasurer at zero, keeps it.
\<close>

theorem C2_witness:
  "netted scenario_fallback = Inr (projr (netted scenario_fallback)) \<and>
   int32 (totalBalance (projr (netted scenario_fallback))) = 0 \<and>
   totalBalance (projr (netted scenario_fallback)) = 0 \<and>
   0 \<le> fst (findSettlement (projr (netted scenario_direct))
              (getMaxDebtor (people (projr (netted scenario_direct))))) \<and>
   int32 (totalBalance (projr (settleRound (projr (netted scenario_direct))))) =
     int32 (totalBalance (projr (netted scenario_direct))) \<and>
   totalBalance (projr (settleRound (projr (netted scenario_direct)))) =
     totalBalance (projr (netted scenario_direct)) \<and>
   int32 (totalBalance (projr (debtorToTreasurer 1 7 (projr (netted scenario_fallback))))) =
     int32 (totalBalance (projr (netted scenario_fallback)) + 2 * 7) \<and>
   totalBalance (projr (debtorToTreasurer 1 7 (projr (netted scenario_fallback)))) =
     totalBalance (projr (netted scenario_fallback)) + 2 * 7 \<and>
   fst (findSettlement (projr (netted scenario_fallback))
          (getMaxDebtor (people (projr (netted scenario_fallback))))) < 0 \<and>
   balance (people (projr (netted scenario_fallback)) ! 0) = 0 \<and>
   int32 (totalBalance (projr (settleRound (projr (netted scenario_fallback))))) =
     int32 (totalBalance (projr (netted scenario_fallback))) \<and>
   totalBalance (projr (settleRound (projr (netted scenario_fallback)))) =
     totalBalance (projr (netted scenario_fallback))"
proof -
  define sf where "sf = projr (netted scenario_fallback)"
  define sd where "sd = projr (netted scenario_direct)"
  have "\<not> isl (netted scenario_fallback)" by code_simp
  then have nf: "netted scenario_fallback = Inr sf" by (simp add: sf_def)
  have n3: "nat (n_count sf) = Suc (Suc (Suc 0))" unfolding sf_def by code_simp
  have "in_range (spec_balance (debtMatrix sf) (Suc (Suc (Suc 0))) 0)"
    "in_range (spec_balance (debtMatrix sf) (Suc (Suc (Suc 0))) (Suc 0))"
    "in_range (spec_balance (debtMatrix sf) (Suc (Suc (Suc 0))) (Suc (Suc 0)))"
    unfolding sf_def by code_simp+
  then have af: "\<forall>i<nat (n_count sf). in_range (spec_balance (debtMatrix sf) (nat (n_count sf)) i)"
    unfolding n3 by (simp add: less_Suc_eq)
  have ld: "length (people sd) = nat (n_count sd) \<and> people sd \<noteq> []"
    unfolding sd_def by code_simp
  have "\<not> isl (settleRound sd)" unfolding sd_def by code_simp
  then have rd: "settleRound sd = Inr (projr (settleRound sd))" by simp
  have dd: "0 \<le> fst (findSettlement sd (getMaxDebtor (people sd)))" unfolding sd_def by code_simp
  have gd: "(\<forall>p\<in>set (people sd). in_range (balance p)) \<and>
       INT_MIN < balance (people sd ! getMaxDebtor (people sd)) \<and>
       balance (people sd ! getMaxDebtor (people sd)) \<le> 0"
    unfolding sd_def by code_simp
  have lf: "length (people sf) = nat (n_count sf) \<and> people sf \<noteq> []"
    unfolding sf_def by code_simp
  have l1: "1 < length (people sf)" unfolding sf_def by code_simp
  have "\<not> isl (debtorToTreasurer 1 7 sf)" unfolding sf_def by code_simp
  then have tf: "debtorToTreasurer 1 7 sf = Inr (projr (debtorToTreasurer 1 7 sf))" by simp
  have hf: "(1::nat) \<noteq> 0 \<and> in_range (balance (people sf ! 0) + 7) \<and>
       in_range (balance (people sf ! 1) + 7)"
    unfolding sf_def by code_simp
  have "\<not> isl (settleRound sf)" unfolding sf_def by code_simp
  then have rf: "settleRound sf = Inr (projr (settleRound sf))" by simp
  have ff: "fst (findSettlement sf (getMaxDebtor (people sf))) < 0" unfolding sf_def by code_simp
  have zf: "balance (people sf ! 0) = 0" unfolding sf_def by code_simp
  have gf: "(\<forall>p\<in>set (people sf). in_range (balance p)) \<and>
       INT_MIN < balance (people sf ! getMaxDebtor (people sf)) \<and>
       balance (people sf ! getMaxDebtor (people sf)) \<le> 0"
    unfolding sf_def by code_simp
  note inst = C2_sum_of_balances[where toks = scenario_fallback and st = sf
      and sa = sd and sa' = "projr (settleRound sd)"
      and d = 1 and amt = 7 and sb = sf and sb' = "projr (debtorToTreasurer 1 7 sf)"
      and sc = sf and sc' = "projr (settleRound sf)"]
  from inst nf af have a: "int32 (totalBalance sf) = 0 \<and> totalBalance sf = 0" by blast
  from inst ld rd dd gd
  have b: "int32 (totalBalance (projr (settleRound sd))) = int32 (totalBalance sd) \<and>
           totalBalance (projr (settleRound sd)) = totalBalance sd" by blast
  from inst l1 tf hf
  have c: "int32 (totalBalance (projr (debtorToTreasurer 1 7 sf))) = int32 (totalBalance sf + 2 * 7) \<and>
           totalBalance (projr (debtorToTreasurer 1 7 sf)) = totalBalance sf + 2 * 7" by blast
  from inst lf rf zf gf
  have d: "int32 (totalBalance (projr (settleRound sf))) = int32 (totalBalance sf) \<and>
           totalBalance (projr (settleRound sf)) = totalBalance sf" by blast
  from a b c d nf dd ff zf show ?thesis unfolding sf_def sd_def by blast
qed

subsection \<open>C3: validity of the transfers\<close>

text \<open>
  C3 states that every transfer appended to the plan has a strictly positive amount (and
  a channel of both parties). On the accepted input \<open>scenario_treasurer_owes\<close> the plan after
  two iterations of the loop ends with a transfer of amount 0, from the Treasurer to
  participant 2.
\<close>

theorem C3_zero_amount_transfer:
  "\<not> isl (netted scenario_treasurer_owes) \<and>
   map_option (map_sum id result) (rounds (Suc (Suc 0)) (projr (netted scenario_treasurer_owes))) =
     Some (Inr [(1, 0, 7, ''B''), (0, 2, 6, ''C''), (0, 2, 0, ''C'')])"
  by code_simp

subsection \<open>C4: the third scenario\<close>

text \<open>
  C4 states that the third scenario of the specification yields exactly two transfers,
  and that nothing more is emitted when the recomputed max creditor is the Treasurer. The
  code returns three transfers: after \<open>P1\<close> has paid the Treasurer the balances are
  \<open>[7, 0, 7]\<close>, \<open>getMaxCreditor\<close> returns the Treasurer (the first greatest element), and the
  transfer Treasurer to Treasurer of 7 via \<open>A\<close> is emitted; a second round then pays \<open>P2\<close>.
\<close>

theorem C4_three_transfers:
  "\<not> isl (netted scenario_fallback) \<and>
   run scenario_fallback = Some (Inr [(1, 0, 7, ''B''), (0, 0, 7, ''A''), (0, 2, 7, ''C'')]) \<and>
   balances (projr (netted scenario_fallback)) = [0, - 7, 7] \<and>
   map_sum id balances (debtorToTreasurer 1 7 (projr (netted scenario_fallback))) = Inr [7, 0, 7] \<and>
   map_sum id (getMaxCreditor \<circ> people) (debtorToTreasurer 1 7 (projr (netted scenario_fallback))) = Inr 0"
  by code_simp

subsection \<open>C5: the UPIs of the Treasurer\<close>

text \<open>
  C5: once \<open>readParticipants\<close> has returned, the set of the Treasurer contains the set
  of every participant, and the sets of all participants stay as they are after
  \<open>readTransactions\<close>, after \<open>computeNetBalances\<close>, after any number of rounds of the planning
  loop, between the two transfers of a fallback round, and when the loop returns.
\<close>

theorem C5_treasurer_universal:
  assumes "readParticipants CashFlowMinimizer c = Inr (s1, c1)"
  shows "treasurerUniversal s1 \<and>
    (\<forall>s2 c2. readTransactions s1 c1 = Inr (s2, c2) \<longrightarrow>
       map upis (people s2) = map upis (people s1) \<and>
       map upis (people (computeNetBalances s2)) = map upis (people s1) \<and>
       (\<forall>k s3. rounds k (computeNetBalances s2) = Some (Inr s3) \<longrightarrow>
          map upis (people s3) = map upis (people s1) \<and> treasurerUniversal s3 \<and>
          (\<forall>d amt s4. debtorToTreasurer d amt s3 = Inr s4 \<longrightarrow>
             map upis (people s4) = map upis (people s1) \<and> treasurerUniversal s4)) \<and>
       (\<forall>s3. settleLoop (computeNetBalances s2) = Some (Inr s3) \<longrightarrow>
          map upis (people s3) = map upis (people s1) \<and> treasurerUniversal s3))"
proof -
  have u: "treasurerUniversal s1" by (rule readParticipants_treasurerUniversal[OF assms])
  have keep: "\<And>x. map upis (people x) = map upis (people s1) \<Longrightarrow> treasurerUniversal x"
    using treasurerUniversal_cong u by blast
  show ?thesis
  proof (intro conjI allI impI)
    show "treasurerUniversal s1" by (rule u)
  next
    fix s2 c2 assume t: "readTransactions s1 c1 = Inr (s2, c2)"
    show a: "map upis (people s2) = map upis (people s1)"
      using readTransactions_frame[OF t] by simp
    show b: "map upis (people (computeNetBalances s2)) = map upis (people s1)"
      using a by simp
    {
      fix k s3 assume r: "rounds k (computeNetBalances s2) = Some (Inr s3)"
      show c: "map upis (people s3) = map upis (people s1)"
        using upis_rounds[OF r] b by simp
      show "treasurerUniversal s3" by (rule keep[OF c])
      fix d amt s4 assume "debtorToTreasurer d amt s3 = Inr s4"
      then show e: "map upis (people s4) = map upis (people s1)"
        using upis_debtorToTreasurer c by simp
      show "treasurerUniversal s4" by (rule keep[OF e])
    }
    {
      fix s3 assume "settleLoop (computeNetBalances s2) = Some (Inr s3)"
      then show f: "map upis (people s3) = map upis (people s1)"
        using upis_settleLoop b by simp
      show "treasurerUniversal s3" by (rule keep[OF f])
    }
  qed
qed

text \<open>
  C5 on the third scenario: after registration, after netting, after one round and at the
  end of the loop.
\<close>

theorem C5_witness:
  "treasurerUniversal (fst (projr (readParticipants CashFlowMinimizer (scenario_fallback, False)))) \<and>
   map upis (people (projr (netted scenario_fallback))) =
     map upis (people (fst (projr (readParticipants CashFlowMinimizer (scenario_fallback, False))))) \<and>
   treasurerUniversal (projr (the (rounds (Suc 0) (projr (netted scenario_fallback))))) \<and>
   treasurerUniversal (projr (the (settleLoop (projr (netted scenario_fallback)))))"
proof -
  define s1 where "s1 = fst (projr (readParticipants CashFlowMinimizer (scenario_fallback, False)))"
  define c1 where "c1 = snd (projr (readParticipants CashFlowMinimizer (scenario_fallback, False)))"
  define s2 where "s2 = fst (projr (readTransactions s1 c1))"
  define c2 where "c2 = snd (projr (readTransactions s1 c1))"
  define s3 where "s3 = computeNetBalances s2"
  have "\<not> isl (readParticipants CashFlowMinimizer (scenario_fallback, False))" by code_simp
  then have p: "readParticipants CashFlowMinimizer (scenario_fallback, False) = Inr (s1, c1)"
    by (simp add: s1_def c1_def)
  have "\<not> isl (readTransactions s1 c1)" unfolding s1_def c1_def by code_simp
  then have t: "readTransactions s1 c1 = Inr (s2, c2)" by (simp add: s2_def c2_def)
  have n: "projr (netted scenario_fallback) = s3"
    by (simp add: netted_def p t s3_def)
  have "rounds (Suc 0) s3 \<noteq> None" "\<not> isl (the (rounds (Suc 0) s3))"
    unfolding s3_def s2_def s1_def c1_def by code_simp+
  then have r: "rounds (Suc 0) s3 = Some (Inr (projr (the (rounds (Suc 0) s3))))"
    by (rule Inr_projr_the)
  have "settleLoop s3 \<noteq> None" "\<not> isl (the (settleLoop s3))"
    unfolding s3_def s2_def s1_def c1_def by code_simp+
  then have l: "settleLoop s3 = Some (Inr (projr (the (settleLoop s3))))"
    by (rule Inr_projr_the)
  from C5_treasurer_universal[OF p] t r l
  have "treasurerUniversal s1 \<and> map upis (people s3) = map upis (people s1) \<and>
        treasurerUniversal (projr (the (rounds (Suc 0) s3))) \<and>
        treasurerUniversal (projr (the (settleLoop s3)))"
    unfolding s3_def by blast
  then show ?thesis unfolding n by (simp add: s1_def)
qed

subsection \<open>C6: the net balances\<close>

text \<open>
  C6 as amended: for an \<open>n\<close> by \<open>n\<close> matrix and participants registered with balance zero,
  \<open>computeNetBalances\<close> gives participant \<open>i\<close> the balance
  \<open>\<Sum>j. debt[j][i] - \<Sum>j. debt[i][j]\<close> reduced to the 32 bits of \<open>int\<close> (\<open>int32\<close>); it is exactly
  that difference when the difference is in the range of \<open>int\<close>. The diagonal contributes
  nothing: the difference is the same taken over \<open>j \<noteq> i\<close>, and overwriting a diagonal entry
  changes no balance.
\<close>

theorem C6_net_balance:
  assumes "length (people s) = nat (n_count s)"
    and "length (debtMatrix s) = nat (n_count s)"
    and "\<forall>row\<in>set (debtMatrix s). length row = nat (n_count s)"
    and "\<forall>p\<in>set (people s). balance p = 0"
    and "i < nat (n_count s)"
  shows "balance (people (computeNetBalances s) ! i) =
           int32 ((\<Sum>j<nat (n_count s). debtMatrix s ! j ! i) -
                  (\<Sum>j<nat (n_count s). debtMatrix s ! i ! j)) \<and>
         (in_range ((\<Sum>j<nat (n_count s). debtMatrix s ! j ! i) -
                    (\<Sum>j<nat (n_count s). debtMatrix s ! i ! j)) \<longrightarrow>
          balance (people (computeNetBalances s) ! i) =
            (\<Sum>j<nat (n_count s). debtMatrix s ! j ! i) -
            (\<Sum>j<nat (n_count s). debtMatrix s ! i ! j)) \<and>
         (\<Sum>j<nat (n_count s). debtMatrix s ! j ! i) - (\<Sum>j<nat (n_count s). debtMatrix s ! i ! j) =
           (\<Sum>j\<in>{..<nat (n_count s)} - {i}. debtMatrix s ! j ! i) -
           (\<Sum>j\<in>{..<nat (n_count s)} - {i}. debtMatrix s ! i ! j) \<and>
         people (computeNetBalances (s\<lparr>debtMatrix := (debtMatrix s)[k := (debtMatrix s ! k)[k := v]]\<rparr>)) =
           people (computeNetBalances s)"
proof -
  from assms(1,5) have "people s ! i \<in> set (people s)" by simp
  with assms(4) have z: "balance (people s ! i) = 0" by blast
  note b = balance_computeNetBalances[OF assms(1,5) z]
  have d: "people (computeNetBalances (s\<lparr>debtMatrix := (debtMatrix s)[k := (debtMatrix s ! k)[k := v]]\<rparr>)) =
           people (computeNetBalances s)"
    by (simp add: people_computeNetBalances net_diagonal)
  from b d spec_balance_split[OF assms(5), of "debtMatrix s"] show ?thesis
    unfolding spec_balance_def by (simp add: int32_id)
qed

text \<open>
  C6, as stated, fails when the difference of the sums leaves the range of \<open>int\<close>. On the
  accepted input \<open>scenario_overflow\<close> the matrix has the non-negative rows \<open>[0, 0, 0]\<close>,
  \<open>[2147483647, 0, 0]\<close> and \<open>[2147483647, 0, 0]\<close>; the specification assigns the Treasurer
  the balance 4294967294, and the code stores \<open>-2\<close>.
\<close>

theorem C6_counterexample:
  "\<not> isl (netted scenario_overflow) \<and>
   n_count (projr (netted scenario_overflow)) = 3 \<and>
   debtMatrix (projr (netted scenario_overflow)) =
     [0, 0, 0] # [2147483647, 0, 0] # [2147483647, 0, 0] # [] \<and>
   spec_balance (debtMatrix (projr (netted scenario_overflow))) 3 0 = 4294967294 \<and>
   balance (people (projr (netted scenario_overflow)) ! 0) = - 2"
  by code_simp

text \<open>
  The amended C6 on two participants and the matrix with rows \<open>[5, 3]\<close> and \<open>[1, 0]\<close>, whose
  diagonal entry \<open>debt[0][0]\<close> is 5.
\<close>

theorem C6_witness:
  "balance (people (computeNetBalances
      \<lparr>n_count = 2, people = [Person ''T'', Person ''P''], idx = Map.empty,
       debtMatrix = [5, 3] # [1, 0] # [], result = []\<rparr>) ! 0) = (5 + 1) - (5 + 3)"
proof -
  let ?s = "\<lparr>n_count = 2, people = [Person ''T'', Person ''P''], idx = Map.empty,
       debtMatrix = [5, 3] # [1, 0] # [], result = []\<rparr>"
  have 1: "length (people ?s) = nat (n_count ?s)" by simp
  have 2: "length (debtMatrix ?s) = nat (n_count ?s)" by simp
  have 3: "\<forall>row\<in>set (debtMatrix ?s). length row = nat (n_count ?s)" by simp
  have 4: "\<forall>p\<in>set (people ?s). balance p = 0" by (simp add: Person_def)
  have 5: "0 < nat (n_count ?s)" by simp
  have "{..<nat 2} = {0, 1}" by auto
  with C6_net_balance[OF 1 2 3 4 5, of 0 9] show ?thesis
    by (simp add: in_range_def INT_MIN_def INT_MAX_def)
qed

subsection \<open>C7: direct transfers are preferred\<close>

text \<open>
  C7: in a round, when some participant \<open>i\<close> with a strictly positive balance shares a
  UPI with the max debtor \<open>d\<close>, the round takes the direct branch (\<open>directTransfer\<close>), not
  the branch through the Treasurer, and appends exactly one transfer: from \<open>d\<close> to a
  participant \<open>c\<close> with a positive balance that shares a UPI with \<open>d\<close>, of the amount
  \<open>min (- balance[d]) balance[c]\<close> (the negation in 32-bit arithmetic), via the least UPI
  they share.
\<close>

theorem C7_direct_preference:
  assumes "i < nat (n_count s)" and "0 < balance (people s ! i)"
    and "upis (people s ! getMaxDebtor (people s)) \<inter> upis (people s ! i) \<noteq> {}"
  shows "\<exists>c. 0 \<le> c \<and> nat c < nat (n_count s) \<and> 0 < balance (people s ! nat c) \<and>
           upis (people s ! getMaxDebtor (people s)) \<inter> upis (people s ! nat c) \<noteq> {} \<and>
           settleRound s =
             Inr (directTransfer (getMaxDebtor (people s)) c
                    (min (int32 (- balance (people s ! getMaxDebtor (people s))))
                         (balance (people s ! nat c)))
                    (Min (upis (people s ! getMaxDebtor (people s)) \<inter> upis (people s ! nat c))) s) \<and>
           (\<forall>s'. settleRound s = Inr s' \<longrightarrow>
              result s' = result s @
                [(int (getMaxDebtor (people s)), c,
                  min (int32 (- balance (people s ! getMaxDebtor (people s))))
                      (balance (people s ! nat c)),
                  Min (upis (people s ! getMaxDebtor (people s)) \<inter> upis (people s ! nat c)))])"
proof -
  let ?d = "getMaxDebtor (people s)"
  obtain c b v where f: "findSettlement s ?d = (c, b, v)" by (cases "findSettlement s ?d")
  from assms have "eligible (people s) ?d i" by (simp add: eligible_def)
  with assms(1) findSettlement_cases[OF f]
  have c: "0 \<le> c" "nat c < nat (n_count s)" "eligible (people s) ?d (nat c)"
    "b = balance (people s ! nat c)" "v = Min (upis (people s ! ?d) \<inter> upis (people s ! nat c))"
    by auto
  let ?amt = "min (int32 (- balance (people s ! ?d))) (balance (people s ! nat c))"
  let ?via = "Min (upis (people s ! ?d) \<inter> upis (people s ! nat c))"
  have r: "settleRound s = Inr (directTransfer ?d c ?amt ?via s)"
    using f c(1,4,5) by (simp add: settleRound_def Let_def)
  have "result (directTransfer ?d c ?amt ?via s) = result s @ [(int ?d, c, ?amt, ?via)]"
    by (simp add: directTransfer_def)
  with r have "\<forall>s'. settleRound s = Inr s' \<longrightarrow> result s' = result s @ [(int ?d, c, ?amt, ?via)]"
    by simp
  with r c(1,2,3) show ?thesis unfolding eligible_def by blast
qed

text \<open>
  C7 on the first scenario of the specification, where \<open>P1\<close> (index 1) is a creditor that
  shares \<open>B\<close> with the max debtor.
\<close>

theorem C7_witness:
  "1 < nat (n_count (projr (netted scenario_direct))) \<and>
   0 < balance (people (projr (netted scenario_direct)) ! 1) \<and>
   getMaxDebtor (people (projr (netted scenario_direct))) = 2 \<and>
   upis (people (projr (netted scenario_direct)) ! 2)
     \<inter> upis (people (projr (netted scenario_direct)) ! 1) \<noteq> {} \<and>
   (\<exists>c. 0 \<le> c \<and> nat c < nat (n_count (projr (netted scenario_direct))) \<and>
      settleRound (projr (netted scenario_direct)) =
        Inr (directTransfer 2 c
               (min (int32 (- balance (people (projr (netted scenario_direct)) ! 2)))
                    (balance (people (projr (netted scenario_direct)) ! nat c)))
               (Min (upis (people (projr (netted scenario_direct)) ! 2)
                       \<inter> upis (people (projr (netted scenario_direct)) ! nat c)))
               (projr (netted scenario_direct))))"
proof -
  define s where "s = projr (netted scenario_direct)"
  have a: "1 < nat (n_count s)" unfolding s_def by code_simp
  have b: "0 < balance (people s ! 1)" unfolding s_def by code_simp
  have d: "getMaxDebtor (people s) = 2" unfolding s_def by code_simp
  have c: "upis (people s ! getMaxDebtor (people s)) \<inter> upis (people s ! 1) \<noteq> {}"
    unfolding s_def by code_simp
  from C7_direct_preference[OF a b c]
  have "\<exists>c. 0 \<le> c \<and> nat c < nat (n_count s) \<and>
          settleRound s =
            Inr (directTransfer 2 c
                   (min (int32 (- balance (people s ! 2))) (balance (people s ! nat c)))
                   (Min (upis (people s ! 2) \<inter> upis (people s ! nat c))) s)"
    unfolding d by blast
  with a b d c[unfolded d] show ?thesis unfolding s_def by blast
qed

subsection \<open>C8: errors and well-formed input\<close>

text \<open>
  C8 states that the run ends with an error and without a plan exactly when the input is
  malformed, and that no error arises on a well-formed input. The code ends without a
  plan on two inputs that pass every check of \<open>readParticipants\<close> and \<open>readTransactions\<close>
  (participant count 2 or 3, UPI counts 0 or 1, positive amounts, registered names). On
  \<open>scenario_two_no_upi\<close> the fallback branch reads the first element of the empty set of
  \<open>P\<close>: the behaviour of the program is undefined from there. On \<open>scenario_two_debtors\<close> the
  loop of \<open>settleDebts\<close> does not return (each round appends one more row to the plan).
\<close>

theorem C8_error_on_well_formed_input:
  "\<not> isl (netted scenario_two_no_upi) \<and>
   n_count (projr (netted scenario_two_no_upi)) = 2 \<and>
   debtMatrix (projr (netted scenario_two_no_upi)) = [0, 0] # [5, 0] # [] \<and>
   balances (projr (netted scenario_two_no_upi)) = [5, - 5] \<and>
   run scenario_two_no_upi = Some (Inl Undefined_behaviour) \<and>
   \<not> isl (netted scenario_two_debtors) \<and>
   balances (projr (netted scenario_two_debtors)) = [- 2, - 3, 5] \<and>
   run scenario_two_debtors = None"
proof -
  define s0 where "s0 = projr (netted scenario_two_debtors)"
  define s1 where "s1 = projr (settleRound s0)"
  define s2 where "s2 = projr (settleRound s1)"
  have i: "\<not> isl (netted scenario_two_debtors)" by code_simp
  then have n: "netted scenario_two_debtors = Inr s0" by (simp add: s0_def)
  have c0: "settledCount s0 < n_count s0" unfolding s0_def by code_simp
  have "\<not> isl (settleRound s0)" unfolding s0_def by code_simp
  then have r0: "settleRound s0 = Inr s1" by (simp add: s1_def)
  have c1: "settledCount s1 < n_count s1" unfolding s1_def s0_def by code_simp
  have "\<not> isl (settleRound s1)" unfolding s1_def s0_def by code_simp
  then have r1: "settleRound s1 = Inr s2" by (simp add: s2_def)
  have p: "people s2 = people s1" unfolding s2_def s1_def s0_def by code_simp
  have m: "n_count s2 = n_count s1" unfolding s2_def s1_def s0_def by code_simp
  have "run scenario_two_debtors = None" by (rule run_not_returning[OF n c0 r0 c1 r1 p m])
  moreover have "balances (projr (netted scenario_two_debtors)) = [- 2, - 3, 5]" by code_simp
  moreover have "\<not> isl (netted scenario_two_no_upi) \<and>
   n_count (projr (netted scenario_two_no_upi)) = 2 \<and>
   debtMatrix (projr (netted scenario_two_no_upi)) = [0, 0] # [5, 0] # [] \<and>
   balances (projr (netted scenario_two_no_upi)) = [5, - 5] \<and>
   run scenario_two_no_upi = Some (Inl Undefined_behaviour)" by code_simp
  ultimately show ?thesis using i by simp
qed

subsection \<open>C9: a debt of a participant to itself\<close>

text \<open>
  C9: a debt record that names the same registered participant \<open>d\<close> as debtor and as
  creditor, with a positive amount, is accepted (reading goes on with the next record; as
  the last record it ends the reading without an error); it adds the amount to the diagonal
  entry of \<open>d\<close>, and the balances computed from the matrix are those computed without it.
\<close>

theorem C9_self_debt:
  assumes "idx s d = Some i" and "int_token ta a" and "0 < a"
  shows "readDebts (Suc m) s (d # d # ta # rest, False) =
           readDebts m (s\<lparr>debtMatrix := addDebt i i a (debtMatrix s)\<rparr>) (rest, False) \<and>
         readDebts (Suc 0) s (d # d # ta # rest, False) =
           Inr (s\<lparr>debtMatrix := addDebt i i a (debtMatrix s)\<rparr>, (rest, False)) \<and>
         people (computeNetBalances (s\<lparr>debtMatrix := addDebt i i a (debtMatrix s)\<rparr>)) =
           people (computeNetBalances s)"
proof -
  have "\<And>m. readDebts (Suc m) s (d # d # ta # rest, False) =
           readDebts m (s\<lparr>debtMatrix := addDebt i i a (debtMatrix s)\<rparr>) (rest, False)"
    using assms by (simp add: get_string_token get_int_token fail_def)
  moreover have "people (computeNetBalances (s\<lparr>debtMatrix := addDebt i i a (debtMatrix s)\<rparr>)) =
           people (computeNetBalances s)"
    by (simp add: people_computeNetBalances addDebt_def net_diagonal)
  ultimately show ?thesis by simp
qed

text \<open>
  C9 on the participants of the third scenario and the record \<open>P1 P1 5\<close>.
\<close>

theorem C9_witness:
  "idx (fst (projr (readParticipants CashFlowMinimizer (scenario_fallback, False)))) ''P1'' = Some 1 \<and>
   int_token ''5'' 5 \<and>
   addDebt 1 1 5 (debtMatrix (fst (projr (readParticipants CashFlowMinimizer (scenario_fallback, False)))))
     = [0, 0, 0] # [0, 5, 0] # [0, 0, 0] # [] \<and>
   readDebts (Suc 0) (fst (projr (readParticipants CashFlowMinimizer (scenario_fallback, False))))
       ([''P1'', ''P1'', ''5''], False) =
     Inr ((fst (projr (readParticipants CashFlowMinimizer (scenario_fallback, False))))
            \<lparr>debtMatrix := [0, 0, 0] # [0, 5, 0] # [0, 0, 0] # []\<rparr>, ([], False)) \<and>
   people (computeNetBalances
            ((fst (projr (readParticipants CashFlowMinimizer (scenario_fallback, False))))
               \<lparr>debtMatrix := [0, 0, 0] # [0, 5, 0] # [0, 0, 0] # []\<rparr>)) =
     people (computeNetBalances
            (fst (projr (readParticipants CashFlowMinimizer (scenario_fallback, False)))))"
proof -
  define s where "s = fst (projr (readParticipants CashFlowMinimizer (scenario_fallback, False)))"
  have a: "idx s ''P1'' = Some 1" unfolding s_def by code_simp
  have b: "int_token ''5'' 5" by code_simp
  have c: "(0::int) < 5" by simp
  have d: "addDebt 1 1 5 (debtMatrix s) = [0, 0, 0] # [0, 5, 0] # [0, 0, 0] # []"
    unfolding s_def by code_simp
  from C9_self_debt[OF a b c, of 0 "[]"] a b d show ?thesis
    unfolding s_def by simp
qed

subsection \<open>C10: a UPI count of zero\<close>

text \<open>
  C10 states that a UPI count of zero is accepted and that, whenever the fallback branch is
  taken, the sets of the debtor and of the selected creditor are non-empty. The input
  \<open>scenario_no_upi\<close> is accepted, with \<open>P1\<close> registered with no UPI; \<open>P1\<close> is the max debtor,
  no direct creditor is found, and the fallback branch reads the first element of the empty
  set of \<open>P1\<close>.
\<close>

theorem C10_empty_set_dereferenced:
  "\<not> isl (netted scenario_no_upi) \<and>
   balances (projr (netted scenario_no_upi)) = [0, - 5, 5] \<and>
   getMaxDebtor (people (projr (netted scenario_no_upi))) = 1 \<and>
   fst (findSettlement (projr (netted scenario_no_upi)) 1) = - 1 \<and>
   upis (people (projr (netted scenario_no_upi)) ! 1) = {} \<and>
   run scenario_no_upi = Some (Inl Undefined_behaviour)"
  by code_simp

end
